theory Spec2Isabelle
  imports Main "HOL-Library.Word"
begin

unbundle bit_operations_syntax

section \<open>Bytes, vectors and process aborts\<close>

type_synonym byte = "8 word"
type_synonym bytes = "byte list"

text \<open>
  \<^verbatim>\<open>AES_BLOCK_SIZE\<close> is OpenSSL's constant 16.
\<close>

definition AES_BLOCK_SIZE :: nat where
  "AES_BLOCK_SIZE = 16"

text \<open>
  \<^verbatim>\<open>std::vector::resize(n, v)\<close>: the vector is cut to its first \<open>n\<close> elements, or
  grown to \<open>n\<close> elements with copies of \<open>v\<close>.
\<close>

definition resize :: "nat \<Rightarrow> 'a \<Rightarrow> 'a list \<Rightarrow> 'a list" where
  "resize n v xs = take n xs @ replicate (n - length xs) v"

text \<open>
  \<^verbatim>\<open>memcpy(buf + off, src, length src)\<close> on a buffer held as a list.
\<close>

definition write_at :: "nat \<Rightarrow> 'a list \<Rightarrow> 'a list \<Rightarrow> 'a list" where
  "write_at off src buf = take off buf @ src @ drop (off + length src) buf"

text \<open>
  A \<^verbatim>\<open>CHECK\<close> macro that fails aborts the process; a function that can hit one
  returns an outcome.
\<close>

datatype 'a outcome = Returned 'a | CheckFailed

text \<open>
  What a call of \<^verbatim>\<open>CryptInternal\<close> leaves behind: the returned flag, the value of
  \<^verbatim>\<open>*ciphertext_size\<close>, the output buffer and the encryptor object.
\<close>

record 'a crypt_result =
  returned :: bool
  ciphertext_size :: nat
  ciphertext_buffer :: bytes
  this_after :: 'a

section \<open>The AES encryptors (aes_encryptor.cc)\<close>

subsection \<open>OpenSSL primitives\<close>

text \<open>
  The block cipher is OpenSSL's and is not reimplemented: it is a parameter \<open>E\<close> of the
  model, a function of the key bytes and of the input block. \<^verbatim>\<open>AES_encrypt\<close> reads the
  16 bytes at its input and writes 16 bytes at its output.
\<close>

type_synonym block_cipher = "bytes \<Rightarrow> bytes \<Rightarrow> bytes"

definition AES_encrypt :: "block_cipher \<Rightarrow> bytes \<Rightarrow> bytes \<Rightarrow> bytes" where
  "AES_encrypt E key inp = resize 16 0 (E key (take 16 inp))"

text \<open>
  \<^verbatim>\<open>AES_set_encrypt_key(user_key, bits, key)\<close> returns 0 when \<open>bits\<close> is 128, 192 or 256
  and -2 for any other number of bits.
\<close>

definition AES_set_encrypt_key :: "bytes \<Rightarrow> nat \<Rightarrow> int" where
  "AES_set_encrypt_key user_key bits = (if bits = 128 \<or> bits = 192 \<or> bits = 256 then 0 else - 2)"

definition xor_bytes :: "bytes \<Rightarrow> bytes \<Rightarrow> bytes" where
  "xor_bytes a b = map (\<lambda>(x, y). x XOR y) (zip a b)"

text \<open>
  \<^verbatim>\<open>AES_cbc_encrypt(in, out, len, key, ivec, AES_ENCRYPT)\<close>: every 16-byte block of the
  input (the last one padded with zeros when \<open>len\<close> is not a multiple of 16) is XORed with
  the chaining value and encrypted; the ciphertext block is the next chaining value, and the
  last one is left in \<open>ivec\<close>. The result is the output written and the new \<open>ivec\<close>.
\<close>

function AES_cbc_encrypt :: "block_cipher \<Rightarrow> bytes \<Rightarrow> bytes \<Rightarrow> bytes \<Rightarrow> bytes \<times> bytes" where
  "AES_cbc_encrypt E key inp ivec =
     (if inp = [] then ([], ivec)
      else
        let block = AES_encrypt E key (xor_bytes (resize 16 0 (take 16 inp)) ivec);
            (rest, ivec') = AES_cbc_encrypt E key (drop 16 inp) block
        in (block @ rest, ivec'))"
  by pat_completeness auto
termination
  by (relation "measure (\<lambda>(E, key, inp, ivec). length inp)") auto

subsection \<open>Helpers of the anonymous namespace\<close>

text \<open>
  \<^verbatim>\<open>Increment64(uint8_t* counter)\<close>: the pointer is the array with an offset \<open>base\<close>. The
  loop variable \<open>i\<close> runs from 7 down to 0; the second argument of the loop function is
  \<open>i + 1\<close>, so that 0 is the loop's exit. The result is the returned flag and the array.
\<close>

fun Increment64_loop :: "nat \<Rightarrow> nat \<Rightarrow> bytes \<Rightarrow> bool \<times> bytes" where
  "Increment64_loop base 0 counter = (True, counter)"
| "Increment64_loop base (Suc i) counter =
     (let counter' = counter[base + i := counter ! (base + i) + 1]
      in if counter' ! (base + i) \<noteq> 0 then (False, counter')
         else Increment64_loop base i counter')"

definition Increment64 :: "nat \<Rightarrow> bytes \<Rightarrow> bool \<times> bytes" where
  "Increment64 base counter = Increment64_loop base 8 counter"

definition IsKeySizeValidForAes :: "nat \<Rightarrow> bool" where
  "IsKeySizeValidForAes key_size = (key_size = 16 \<or> key_size = 24 \<or> key_size = 32)"

subsection \<open>AesCryptor and AesEncryptor\<close>

datatype ConstantIvFlag = kUseConstantIv | kDontUseConstantIv

datatype CbcPaddingScheme = kNoPadding | kPkcs5Padding | kCtsPadding

record AesCryptor =
  aes_key :: bytes
  iv :: bytes
  constant_iv_flag :: ConstantIvFlag

text \<open>
  \<^verbatim>\<open>AesEncryptor::InitializeWithIv\<close>. \<^verbatim>\<open>AesCryptor::SetIv\<close> is defined in aes_cryptor.cc,
  which is not part of the sources at hand: it is the parameter \<open>SetIv\<close>, from the IV and
  the object to the returned flag and the object.
\<close>

definition InitializeWithIv ::
  "(bytes \<Rightarrow> 'a AesCryptor_scheme \<Rightarrow> bool \<times> 'a AesCryptor_scheme) \<Rightarrow> bytes \<Rightarrow> bytes \<Rightarrow>
   'a AesCryptor_scheme \<Rightarrow> (bool \<times> 'a AesCryptor_scheme) outcome" where
  "InitializeWithIv SetIv key iv0 this =
     (if \<not> IsKeySizeValidForAes (length key) then Returned (False, this)
      else if AES_set_encrypt_key key (length key * 8) \<noteq> 0 then CheckFailed
      else Returned (SetIv iv0 (this\<lparr>aes_key := key\<rparr>)))"

subsection \<open>AesCtrEncryptor\<close>

record AesCtrEncryptor = AesCryptor +
  block_offset :: nat
  encrypted_counter :: bytes
  counter :: bytes

definition AesCtrEncryptor_new :: AesCtrEncryptor where
  "AesCtrEncryptor_new =
     \<lparr>aes_key = [], iv = [], constant_iv_flag = kDontUseConstantIv,
      block_offset = 0, encrypted_counter = replicate AES_BLOCK_SIZE 0, counter = []\<rparr>"

definition AesCtr_SetIvInternal :: "AesCtrEncryptor \<Rightarrow> AesCtrEncryptor" where
  "AesCtr_SetIvInternal this =
     this\<lparr>block_offset := 0, counter := resize AES_BLOCK_SIZE 0 (iv this)\<rparr>"

text \<open>
  The body of the \<^verbatim>\<open>for\<close> loop of \<^verbatim>\<open>AesCtrEncryptor::CryptInternal\<close> at index \<open>i\<close>, on
  the object and the output buffer.
\<close>

definition AesCtr_crypt_byte ::
  "block_cipher \<Rightarrow> bytes \<Rightarrow> nat \<Rightarrow> AesCtrEncryptor \<times> bytes \<Rightarrow> AesCtrEncryptor \<times> bytes" where
  "AesCtr_crypt_byte E plaintext i s =
     (let this = fst s; ciphertext = snd s;
          this1 = (if block_offset this = 0
                   then this\<lparr>encrypted_counter := AES_encrypt E (aes_key this) (counter this),
                             counter := snd (Increment64 8 (counter this))\<rparr>
                   else this);
          ciphertext1 = ciphertext[i := plaintext ! i XOR encrypted_counter this1 ! block_offset this1];
          this2 = this1\<lparr>block_offset := (block_offset this1 + 1) mod AES_BLOCK_SIZE\<rparr>
      in (this2, ciphertext1))"

function AesCtr_crypt_loop ::
  "block_cipher \<Rightarrow> bytes \<Rightarrow> nat \<Rightarrow> AesCtrEncryptor \<times> bytes \<Rightarrow> AesCtrEncryptor \<times> bytes" where
  "AesCtr_crypt_loop E plaintext i s =
     (if i < length plaintext
      then AesCtr_crypt_loop E plaintext (i + 1) (AesCtr_crypt_byte E plaintext i s)
      else s)"
  by pat_completeness auto
termination
  by (relation "measure (\<lambda>(E, plaintext, i, s). length plaintext - i)") auto

text \<open>
  \<^verbatim>\<open>AesCtrEncryptor::CryptInternal\<close>. The output buffer is the list \<open>ciphertext\<close>; its
  length is the capacity the caller passes in \<^verbatim>\<open>*ciphertext_size\<close>. The vector
  \<^verbatim>\<open>encrypted_counter_\<close> has 16 elements from the constructor on, so that the 16 bytes
  \<^verbatim>\<open>AES_encrypt\<close> writes are the whole of it.
\<close>

definition AesCtr_CryptInternal ::
  "block_cipher \<Rightarrow> bytes \<Rightarrow> bytes \<Rightarrow> AesCtrEncryptor \<Rightarrow> AesCtrEncryptor crypt_result" where
  "AesCtr_CryptInternal E plaintext ciphertext this =
     (if length ciphertext < length plaintext
      then \<lparr>returned = False, ciphertext_size = length ciphertext,
            ciphertext_buffer = ciphertext, this_after = this\<rparr>
      else
        let s = AesCtr_crypt_loop E plaintext 0 (this, ciphertext)
        in \<lparr>returned = True, ciphertext_size = length plaintext,
            ciphertext_buffer = snd s, this_after = fst s\<rparr>)"

subsection \<open>AesCbcEncryptor\<close>

record AesCbcEncryptor = AesCryptor +
  padding_scheme :: CbcPaddingScheme
  internal_iv :: bytes

text \<open>
  The two constructors. The \<^verbatim>\<open>CHECK_EQ\<close> of the two-argument constructor aborts the
  process when it fails.
\<close>

definition AesCbcEncryptor_new2 :: "CbcPaddingScheme \<Rightarrow> ConstantIvFlag \<Rightarrow> AesCbcEncryptor outcome" where
  "AesCbcEncryptor_new2 scheme flag =
     (if scheme \<noteq> kNoPadding \<and> flag \<noteq> kUseConstantIv then CheckFailed
      else Returned \<lparr>aes_key = [], iv = [], constant_iv_flag = flag,
                     padding_scheme = scheme, internal_iv = []\<rparr>)"

definition AesCbcEncryptor_new1 :: "CbcPaddingScheme \<Rightarrow> AesCbcEncryptor outcome" where
  "AesCbcEncryptor_new1 scheme = AesCbcEncryptor_new2 scheme kDontUseConstantIv"

definition AesCbc_SetIvInternal :: "AesCbcEncryptor \<Rightarrow> AesCbcEncryptor" where
  "AesCbc_SetIvInternal this = this\<lparr>internal_iv := resize AES_BLOCK_SIZE 0 (iv this)\<rparr>"

definition NumPaddingBytes :: "AesCbcEncryptor \<Rightarrow> nat \<Rightarrow> nat" where
  "NumPaddingBytes this size' =
     (if padding_scheme this = kPkcs5Padding then AES_BLOCK_SIZE - (size' mod AES_BLOCK_SIZE) else 0)"

text \<open>
  \<^verbatim>\<open>AesCbcEncryptor::CryptInternal\<close>, with the output buffer and the result as for the
  counter mode. The branches stand in the order of the source.
\<close>

definition AesCbc_CryptInternal ::
  "block_cipher \<Rightarrow> bytes \<Rightarrow> bytes \<Rightarrow> AesCbcEncryptor \<Rightarrow> AesCbcEncryptor crypt_result" where
  "AesCbc_CryptInternal E plaintext ciphertext this =
     (let plaintext_size = length plaintext;
          residual_block_size = plaintext_size mod AES_BLOCK_SIZE;
          num_padding_bytes = NumPaddingBytes this plaintext_size;
          required_ciphertext_size = plaintext_size + num_padding_bytes
      in
        if length ciphertext < required_ciphertext_size
        then \<lparr>returned = False, ciphertext_size = length ciphertext,
              ciphertext_buffer = ciphertext, this_after = this\<rparr>
        else
          let cbc_size = plaintext_size - residual_block_size;
              (cbc_out, iv1) =
                 (if cbc_size \<noteq> 0
                  then AES_cbc_encrypt E (aes_key this) (take cbc_size plaintext) (internal_iv this)
                  else ([], internal_iv this));
              ciphertext1 = write_at 0 cbc_out ciphertext;
              this1 = this\<lparr>internal_iv := iv1\<rparr>
          in
            if cbc_size = 0 \<and> padding_scheme this = kCtsPadding
            then \<lparr>returned = True, ciphertext_size = required_ciphertext_size,
                  ciphertext_buffer = write_at 0 plaintext ciphertext1, this_after = this1\<rparr>
            else if residual_block_size = 0 \<and> padding_scheme this \<noteq> kPkcs5Padding
            then \<lparr>returned = True, ciphertext_size = required_ciphertext_size,
                  ciphertext_buffer = ciphertext1, this_after = this1\<rparr>
            else if padding_scheme this = kNoPadding
            then \<lparr>returned = True, ciphertext_size = required_ciphertext_size,
                  ciphertext_buffer =
                    write_at cbc_size (take residual_block_size (drop cbc_size plaintext)) ciphertext1,
                  this_after = this1\<rparr>
            else
              let residual_block = drop cbc_size plaintext
              in
                if padding_scheme this = kPkcs5Padding
                then
                  let padded = resize AES_BLOCK_SIZE (of_nat num_padding_bytes) residual_block;
                      (enc, iv2) = AES_cbc_encrypt E (aes_key this) (take AES_BLOCK_SIZE padded) iv1
                  in \<lparr>returned = True, ciphertext_size = required_ciphertext_size,
                      ciphertext_buffer = write_at cbc_size enc ciphertext1,
                      this_after = this1\<lparr>internal_iv := iv2\<rparr>\<rparr>
                else
                  let padded = resize AES_BLOCK_SIZE 0 residual_block;
                      (enc, iv2) = AES_cbc_encrypt E (aes_key this) (take AES_BLOCK_SIZE padded) iv1;
                      ciphertext2 =
                        write_at cbc_size
                          (take residual_block_size (drop (cbc_size - AES_BLOCK_SIZE) ciphertext1))
                          ciphertext1;
                      ciphertext3 = write_at (cbc_size - AES_BLOCK_SIZE) enc ciphertext2
                  in \<lparr>returned = True, ciphertext_size = required_ciphertext_size,
                      ciphertext_buffer = ciphertext3,
                      this_after = this1\<lparr>internal_iv := iv2\<rparr>\<rparr>)"

section \<open>The multi-segment segmenter (multi_segment_segmenter.cc)\<close>

subsection \<open>Data the segmenter works on\<close>

text \<open>
  \<^verbatim>\<open>SegmentReference\<close> and \<^verbatim>\<open>SegmentIndex\<close> are declared in box_definitions.h, which is
  not part of the sources at hand. The records hold the fields the segmenter reads and
  writes, at the widths of the \<^verbatim>\<open>sidx\<close> box: 32-bit sizes, durations and SAP delta times,
  64-bit presentation times. The earliest presentation time of the index itself is the
  field \<open>sidx_earliest_presentation_time\<close>.
\<close>

datatype SAPType = TypeUnknown | Type1 | Type2 | Type3 | Type4 | Type5 | Type6

record SegmentReference =
  referenced_size :: "32 word"
  subsegment_duration :: "32 word"
  sap_type :: SAPType
  sap_delta_time :: "32 word"
  earliest_presentation_time :: "64 word"

record SegmentIndex =
  references :: "SegmentReference list"
  sidx_earliest_presentation_time :: "64 word"

text \<open>
  The fields of \<^verbatim>\<open>MuxerOptions\<close> the segmenter uses; \<^verbatim>\<open>num_subsegments_per_sidx\<close> is a
  C++ \<^verbatim>\<open>int\<close>.
\<close>

record MuxerOptions =
  num_subsegments_per_sidx :: int
  segment_template :: string
  output_file_name :: string
  bandwidth :: nat

text \<open>
  \<^verbatim>\<open>Status\<close>, with the error codes of the error taxonomy; \<^verbatim>\<open>Status::OK\<close> is the code
  \<open>OK\<close> with an empty message.
\<close>

datatype error_code =
  OK | INVALID_ARGUMENT | PARSER_FAILURE | ENCRYPTION_FAILURE | FILE_FAILURE | END_OF_STREAM
  | INTERNAL_ERROR

record Status =
  error_code :: error_code
  error_message :: string

definition Status_OK :: Status where
  "Status_OK = \<lparr>error_code = OK, error_message = []\<rparr>"

definition ok :: "Status \<Rightarrow> bool" where
  "ok status = (error_code status = OK)"

text \<open>
  The collaborators of \<^verbatim>\<open>WriteSegment\<close> that live outside these sources (the file
  abstraction, the buffer writers, the box serialisers and \<^verbatim>\<open>GetSegmentName\<close>) enter as
  one record: whether \<^verbatim>\<open>File::Open\<close> of a name in a mode returns a file, what the two calls
  of \<^verbatim>\<open>WriteToFile\<close> return, what \<^verbatim>\<open>Close\<close> returns, the name \<^verbatim>\<open>GetSegmentName\<close> makes
  of the template, the time, the segment number and the bandwidth, and the number of bytes
  the \<^verbatim>\<open>styp\<close> and \<^verbatim>\<open>sidx\<close> boxes add to the buffer.
\<close>

record Collaborators =
  File_Open :: "string \<Rightarrow> string \<Rightarrow> bool"
  buffer_WriteToFile :: Status
  fragment_buffer_WriteToFile :: Status
  File_Close :: bool
  GetSegmentName :: "string \<Rightarrow> 64 word \<Rightarrow> nat \<Rightarrow> nat \<Rightarrow> string"
  styp_bytes :: nat
  sidx_bytes :: "SegmentIndex \<Rightarrow> nat"

text \<open>
  What a call does to the outside world, in the order it happens.
\<close>

datatype event =
  Write_styp
  | Write_sidx SegmentIndex
  | Buffer_WriteToFile string
  | Fragment_buffer_WriteToFile string
  | Close_file string
  | Log_warning string
  | UpdateProgress "64 word"
  | OnSampleDurationReady "32 word"
  | OnNewSegment string "64 word" "64 word" nat

record MultiSegmentSegmenter =
  options :: MuxerOptions
  sidx :: SegmentIndex
  num_segments :: nat
  fragment_buffer_size :: nat
  muxer_listener :: bool
  sample_duration :: "32 word"

subsection \<open>WriteSegment\<close>

text \<open>
  The loop that adds the 32-bit subsegment durations up in a 64-bit \<^verbatim>\<open>segment_duration\<close>.
\<close>

definition sum_subsegment_durations :: "SegmentReference list \<Rightarrow> 64 word" where
  "sum_subsegment_durations refs =
     foldl (\<lambda>segment_duration r. segment_duration + ucast (subsegment_duration r)) 0 refs"

text \<open>
  \<^verbatim>\<open>MultiSegmentSegmenter::WriteSegment\<close>: the returned status, the segmenter and the
  events.
\<close>

definition WriteSegment ::
  "Collaborators \<Rightarrow> MultiSegmentSegmenter \<Rightarrow> Status \<times> MultiSegmentSegmenter \<times> event list" where
  "WriteSegment env this =
     (let opts = options this;
          append_mode = (segment_template opts = []);
          file_name =
            (if append_mode then output_file_name opts
             else GetSegmentName env (segment_template opts)
                    (sidx_earliest_presentation_time (sidx this)) (num_segments this)
                    (bandwidth opts));
          this1 = (if append_mode then this else this\<lparr>num_segments := num_segments this + 1\<rparr>)
      in
        if append_mode \<and> \<not> File_Open env file_name ''a''
        then (\<lparr>error_code = FILE_FAILURE,
               error_message = ''Cannot open file for append '' @ output_file_name opts\<rparr>,
              this1, [])
        else if \<not> append_mode \<and> \<not> File_Open env file_name ''w''
        then (\<lparr>error_code = FILE_FAILURE,
               error_message = ''Cannot open file for write '' @ file_name\<rparr>,
              this1, [])
        else
          let ev_styp = (if append_mode then [] else [Write_styp]);
              buffer_size0 = (if append_mode then 0 else styp_bytes env);
              write_sidx = (num_subsegments_per_sidx opts \<ge> 0);
              ev_sidx = (if write_sidx then [Write_sidx (sidx this1)] else []);
              buffer_size = buffer_size0 + (if write_sidx then sidx_bytes env (sidx this1) else 0);
              segment_size = buffer_size + fragment_buffer_size this1;
              status1 = buffer_WriteToFile env;
              ev_w1 = [Buffer_WriteToFile file_name];
              status = (if ok status1 then fragment_buffer_WriteToFile env else status1);
              ev_w2 = (if ok status1 then [Fragment_buffer_WriteToFile file_name] else []);
              ev_close = Close_file file_name #
                 (if \<not> File_Close env
                  then [Log_warning (''Failed to close the file properly: '' @ file_name)]
                  else []);
              ev_io = ev_styp @ ev_sidx @ ev_w1 @ ev_w2 @ ev_close
          in
            if \<not> ok status then (status, this1, ev_io)
            else
              let segment_duration = sum_subsegment_durations (references (sidx this1));
                  ev_listener =
                    (if muxer_listener this1
                     then [OnSampleDurationReady (sample_duration this1),
                           OnNewSegment file_name (sidx_earliest_presentation_time (sidx this1))
                             segment_duration segment_size]
                     else [])
              in (Status_OK, this1, ev_io @ [UpdateProgress segment_duration] @ ev_listener))"

subsection \<open>DoFinalizeSegment\<close>

definition absolute_sap_time :: "SegmentReference \<Rightarrow> 64 word" where
  "absolute_sap_time r = ucast (sap_delta_time r) + earliest_presentation_time r"

text \<open>
  The first three statements of the body of the coalescing loop: the size, the duration
  and the earliest presentation time of \<^verbatim>\<open>refs[i]\<close> go into \<^verbatim>\<open>refs[subseg_index]\<close>.
\<close>

definition accumulate :: "nat \<Rightarrow> nat \<Rightarrow> SegmentReference list \<Rightarrow> SegmentReference list" where
  "accumulate subseg_index i refs =
     (let refs1 = refs[subseg_index := (refs ! subseg_index)\<lparr>referenced_size :=
                     referenced_size (refs ! subseg_index) + referenced_size (refs ! i)\<rparr>];
          refs2 = refs1[subseg_index := (refs1 ! subseg_index)\<lparr>subsegment_duration :=
                     subsegment_duration (refs1 ! subseg_index) + subsegment_duration (refs1 ! i)\<rparr>];
          refs3 = refs2[subseg_index := (refs2 ! subseg_index)\<lparr>earliest_presentation_time :=
                     min (earliest_presentation_time (refs2 ! subseg_index))
                         (earliest_presentation_time (refs2 ! i))\<rparr>]
      in refs3)"

text \<open>
  The \<^verbatim>\<open>for\<close> loop of \<^verbatim>\<open>DoFinalizeSegment\<close>, from the state at the loop test: the loop
  variable \<open>i\<close>, \<open>frag_index\<close>, \<open>subseg_index\<close>, \<open>first_sap_time\<close> and the vector. The indices
  are 32-bit in the source; they never pass \<open>num_fragments\<close>, which is below \<open>2 ^ 32\<close>, so
  they do not wrap and are natural numbers here.
\<close>

function coalesce_loop ::
  "nat \<Rightarrow> nat \<Rightarrow> nat \<Rightarrow> nat \<Rightarrow> nat \<Rightarrow> 64 word \<Rightarrow> SegmentReference list \<Rightarrow> SegmentReference list"
where
  "coalesce_loop num_fragments num_fragments_per_subsegment i frag_index subseg_index
       first_sap_time refs =
     (if i < num_fragments then
        let refs1 = accumulate subseg_index i refs;
            take_sap = (sap_type (refs1 ! subseg_index) = TypeUnknown \<and>
                        sap_type (refs1 ! i) \<noteq> TypeUnknown);
            refs2 = (if take_sap
                     then refs1[subseg_index :=
                            (refs1 ! subseg_index)\<lparr>sap_type := sap_type (refs1 ! i)\<rparr>]
                     else refs1);
            first_sap_time2 =
              (if take_sap then absolute_sap_time (refs2 ! i) else first_sap_time);
            frag_index2 = frag_index + 1
        in
          if frag_index2 \<ge> num_fragments_per_subsegment then
            let refs3 = (if sap_type (refs2 ! subseg_index) \<noteq> TypeUnknown
                         then refs2[subseg_index := (refs2 ! subseg_index)\<lparr>sap_delta_time :=
                                ucast (first_sap_time2 -
                                       earliest_presentation_time (refs2 ! subseg_index))\<rparr>]
                         else refs2);
                i2 = i + 1
            in
              if i2 \<ge> num_fragments then refs3
              else
                let subseg_index2 = subseg_index + 1;
                    refs4 = refs3[subseg_index2 := refs3 ! i2]
                in coalesce_loop num_fragments num_fragments_per_subsegment (i2 + 1) 1
                     subseg_index2 (absolute_sap_time (refs4 ! i2)) refs4
          else coalesce_loop num_fragments num_fragments_per_subsegment (i + 1) frag_index2
                 subseg_index first_sap_time2 refs2
      else refs)"
  by pat_completeness auto
termination
  by (relation "measure (\<lambda>(n, p, i, f, s, t, r). n - i)") auto

text \<open>
  A value-initialised \<^verbatim>\<open>SegmentReference\<close>, with which \<^verbatim>\<open>resize\<close> would fill a vector
  that grows.
\<close>

definition SegmentReference_zero :: SegmentReference where
  "SegmentReference_zero =
     \<lparr>referenced_size = 0, subsegment_duration = 0, sap_type = TypeUnknown,
      sap_delta_time = 0, earliest_presentation_time = 0\<rparr>"

text \<open>
  \<^verbatim>\<open>MultiSegmentSegmenter::DoFinalizeSegment\<close>; \<open>refs\<close> is the vector
  \<^verbatim>\<open>sidx()->references\<close>, which the function changes only in the coalescing loop and in
  \<^verbatim>\<open>resize\<close>. Reading \<^verbatim>\<open>references[0]\<close> of an empty vector is undefined behaviour: the
  result is \<open>None\<close>. \<open>num_fragments\<close> and
  \<open>num_fragments_per_subsegment\<close> are \<^verbatim>\<open>uint32_t\<close>, and the division converts the
  \<^verbatim>\<open>int\<close> option to unsigned: the wrap-around modulo \<open>2 ^ 32\<close> is written out.
\<close>

definition DoFinalizeSegment ::
  "Collaborators \<Rightarrow> MultiSegmentSegmenter \<Rightarrow>
   (Status \<times> MultiSegmentSegmenter \<times> event list) option" where
  "DoFinalizeSegment env this =
     (let refs = references (sidx this);
          n = num_subsegments_per_sidx (options this)
      in
        if refs = [] then None
        else
          let this1 = this\<lparr>sidx := (sidx this)\<lparr>sidx_earliest_presentation_time :=
                         earliest_presentation_time (refs ! 0)\<rparr>\<rparr>
          in
            if n \<le> 0 then Some (WriteSegment env this1)
            else
              let num_fragments = length refs mod 2 ^ 32;
                  num_fragments_per_subsegment =
                    (((num_fragments + 2 ^ 32 - 1) mod 2 ^ 32) div (nat (n mod 2 ^ 32)) + 1)
                    mod 2 ^ 32
              in
                if num_fragments_per_subsegment \<le> 1 then Some (WriteSegment env this1)
                else
                  let refs' = coalesce_loop num_fragments num_fragments_per_subsegment 1 0 0
                                (absolute_sap_time (refs ! 0)) refs;
                      refs'' = resize (nat n) SegmentReference_zero refs';
                      this2 = this1\<lparr>sidx := (sidx this1)\<lparr>references := refs''\<rparr>\<rparr>;
                      this3 = this2\<lparr>sidx := (sidx this2)\<lparr>sidx_earliest_presentation_time :=
                                 earliest_presentation_time (refs'' ! 0)\<rparr>\<rparr>
                  in Some (WriteSegment env this3))"

section \<open>Auxiliary functions of the proofs\<close>

text \<open>
  The value of a byte string read as a big-endian unsigned integer.
\<close>

definition be_value :: "bytes \<Rightarrow> nat" where
  "be_value bs = foldl (\<lambda>acc b. acc * 256 + unat b) 0 bs"

text \<open>
  The loop body of the counter mode, split in its two halves, and the loop as a function
  of the plaintext bytes still to come: the object after them and the bytes written.
\<close>

definition ctr_refill :: "block_cipher \<Rightarrow> AesCtrEncryptor \<Rightarrow> AesCtrEncryptor" where
  "ctr_refill E this =
     (if block_offset this = 0
      then this\<lparr>encrypted_counter := AES_encrypt E (aes_key this) (counter this),
                counter := snd (Increment64 8 (counter this))\<rparr>
      else this)"

definition ctr_advance :: "AesCtrEncryptor \<Rightarrow> AesCtrEncryptor" where
  "ctr_advance this = this\<lparr>block_offset := (block_offset this + 1) mod AES_BLOCK_SIZE\<rparr>"

fun ctr_stream :: "block_cipher \<Rightarrow> AesCtrEncryptor \<Rightarrow> bytes \<Rightarrow> AesCtrEncryptor \<times> bytes" where
  "ctr_stream E this [] = (this, [])"
| "ctr_stream E this (p # ps) =
     (let this1 = ctr_refill E this;
          r = ctr_stream E (ctr_advance this1) ps
      in (fst r, (p XOR encrypted_counter this1 ! block_offset this1) # snd r))"

text \<open>
  Whether \<^verbatim>\<open>WriteSegment\<close> gets a file from \<^verbatim>\<open>File::Open\<close>: the output file in append mode
  when there is no segment template, the named segment file otherwise.
\<close>

definition segment_file_opened :: "Collaborators \<Rightarrow> MultiSegmentSegmenter \<Rightarrow> bool" where
  "segment_file_opened env this =
     (if segment_template (options this) = []
      then File_Open env (output_file_name (options this)) ''a''
      else File_Open env
             (GetSegmentName env (segment_template (options this))
                (sidx_earliest_presentation_time (sidx this)) (num_segments this)
                (bandwidth (options this))) ''w'')"

text \<open>
  The coalescing loop as a function of lists. \<open>absorb_ref\<close> and \<open>absorb_sap\<close> are what one
  pass of the loop body does to \<^verbatim>\<open>refs[subseg_index]\<close> and to \<^verbatim>\<open>first_sap_time\<close>;
  \<open>finish_ref\<close> is the recomputation of \<^verbatim>\<open>sap_delta_time\<close> when a subsegment has its
  count of fragments; \<open>coalesce_from\<close> is the loop, from the current subsegment reference,
  \<open>first_sap_time\<close>, \<open>frag_index\<close> and the references not yet read, to the subsegment
  references it leaves at the front of the vector.
\<close>

definition absorb_ref :: "SegmentReference \<Rightarrow> SegmentReference \<Rightarrow> SegmentReference" where
  "absorb_ref acc r =
     (let acc1 = acc\<lparr>referenced_size := referenced_size acc + referenced_size r,
                     subsegment_duration := subsegment_duration acc + subsegment_duration r,
                     earliest_presentation_time :=
                       min (earliest_presentation_time acc) (earliest_presentation_time r)\<rparr>
      in if sap_type acc = TypeUnknown \<and> sap_type r \<noteq> TypeUnknown
         then acc1\<lparr>sap_type := sap_type r\<rparr> else acc1)"

definition absorb_sap :: "SegmentReference \<Rightarrow> 64 word \<Rightarrow> SegmentReference \<Rightarrow> 64 word" where
  "absorb_sap acc first_sap_time r =
     (if sap_type acc = TypeUnknown \<and> sap_type r \<noteq> TypeUnknown
      then absolute_sap_time r else first_sap_time)"

definition finish_ref :: "SegmentReference \<Rightarrow> 64 word \<Rightarrow> SegmentReference" where
  "finish_ref acc first_sap_time =
     (if sap_type acc \<noteq> TypeUnknown
      then acc\<lparr>sap_delta_time := ucast (first_sap_time - earliest_presentation_time acc)\<rparr>
      else acc)"

fun coalesce_from ::
  "nat \<Rightarrow> nat \<Rightarrow> SegmentReference \<Rightarrow> 64 word \<Rightarrow> SegmentReference list \<Rightarrow> SegmentReference list"
where
  "coalesce_from p frag acc t [] = [acc]"
| "coalesce_from p frag acc t (r # rs) =
     (if frag + 1 \<ge> p
      then (case rs of
              [] \<Rightarrow> [finish_ref (absorb_ref acc r) (absorb_sap acc t r)]
            | r' # rs' \<Rightarrow>
                finish_ref (absorb_ref acc r) (absorb_sap acc t r) #
                coalesce_from p 1 r' (absolute_sap_time r') rs')
      else coalesce_from p (frag + 1) (absorb_ref acc r) (absorb_sap acc t r) rs)"

text \<open>
  A subsegment as the loop forms it: \<open>absorb_all\<close> takes the references of a group into its
  first one, and \<open>merge_group full g\<close> is the reference the loop leaves for the group \<open>g\<close>,
  with \<^verbatim>\<open>sap_delta_time\<close> recomputed when \<open>g\<close> has \<open>full\<close> references. The loop starts
  with \<^verbatim>\<open>frag_index = 0\<close> and resets it to 1, so the first group takes \<open>p + 1\<close> references
  and every later one \<open>p\<close>: \<open>group_start p k\<close> is the index of the first reference of group
  \<open>k\<close>, and \<open>group_of p refs k\<close> are its references.
\<close>

fun absorb_all ::
  "SegmentReference \<Rightarrow> 64 word \<Rightarrow> SegmentReference list \<Rightarrow> SegmentReference \<times> 64 word"
where
  "absorb_all acc t [] = (acc, t)"
| "absorb_all acc t (r # rs) = absorb_all (absorb_ref acc r) (absorb_sap acc t r) rs"

definition merge_group :: "nat \<Rightarrow> SegmentReference list \<Rightarrow> SegmentReference" where
  "merge_group full g =
     (let m = absorb_all (hd g) (absolute_sap_time (hd g)) (tl g)
      in if full \<le> length g then finish_ref (fst m) (snd m) else fst m)"

definition group_start :: "nat \<Rightarrow> nat \<Rightarrow> nat" where
  "group_start p k = (if k = 0 then 0 else k * p + 1)"

definition group_of :: "nat \<Rightarrow> SegmentReference list \<Rightarrow> nat \<Rightarrow> SegmentReference list" where
  "group_of p refs k = take (group_start p (k + 1) - group_start p k) (drop (group_start p k) refs)"

definition known_sap :: "SegmentReference \<Rightarrow> bool" where
  "known_sap r = (sap_type r \<noteq> TypeUnknown)"

section \<open>Concrete inputs\<close>

text \<open>
  Collaborators that open every file, with the given result of the first write and of
  \<^verbatim>\<open>Close\<close>; a segmenter with a segment template, a listener and the given option and
  references; and the reference of fragment \<open>k\<close>: \<open>2 ^ k\<close> bytes, duration 1, presentation
  time \<open>10 * k\<close>, with the given SAP type and SAP delta time.
\<close>

definition example_collaborators :: "Status \<Rightarrow> bool \<Rightarrow> Collaborators" where
  "example_collaborators first_write closes =
     \<lparr>File_Open = (\<lambda>name mode. True), buffer_WriteToFile = first_write,
      fragment_buffer_WriteToFile = Status_OK, File_Close = closes,
      GetSegmentName = (\<lambda>template t number bw. template), styp_bytes = 24,
      sidx_bytes = (\<lambda>s. 32 + 12 * length (references s))\<rparr>"

definition example_segmenter :: "int \<Rightarrow> SegmentReference list \<Rightarrow> MultiSegmentSegmenter" where
  "example_segmenter n refs =
     \<lparr>options = \<lparr>num_subsegments_per_sidx = n, segment_template = ''seg'',
                 output_file_name = ''out'', bandwidth = 0\<rparr>,
      sidx = \<lparr>references = refs, sidx_earliest_presentation_time = 0\<rparr>,
      num_segments = 0, fragment_buffer_size = 100, muxer_listener = True,
      sample_duration = 1\<rparr>"

definition fragment_reference :: "nat \<Rightarrow> SAPType \<Rightarrow> 32 word \<Rightarrow> SegmentReference" where
  "fragment_reference k st delta =
     \<lparr>referenced_size = 2 ^ k, subsegment_duration = 1, sap_type = st,
      sap_delta_time = delta, earliest_presentation_time = of_nat (10 * k)\<rparr>"

definition ten_fragments :: "SegmentReference list" where
  "ten_fragments = map (\<lambda>k. fragment_reference k Type1 0) [0, 1, 2, 3, 4, 5, 6, 7, 8, 9]"

section \<open>Properties of the AES encryptors\<close>

declare AES_cbc_encrypt.simps [simp del]

subsection \<open>The 64-bit counter\<close>
lemma be_value_snoc: "be_value (bs @ [b]) = be_value bs * 256 + unat b"
  by (simp add: be_value_def)

lemma unat_byte_bound: "unat (b :: byte) < 256"
  using unsigned_less [of b] by simp

lemma be_value_bound: "be_value bs < 256 ^ length bs"
proof (induction bs rule: rev_induct)
  case Nil
  then show ?case by (simp add: be_value_def)
next
  case (snoc b bs)
  have "unat b < 256" by (rule unat_byte_bound)
  with snoc show ?case by (simp add: be_value_snoc)
qed

lemma byte_255: "unat (b :: byte) = 255 \<Longrightarrow> b = 255"
  by (simp add: word_unat_eq_iff)

lemma byte_succ_zero: "(b :: byte) + 1 = 0 \<Longrightarrow> unat b = 255"
proof -
  assume "b + 1 = 0"
  then have "unat (b + 1) = 0" by simp
  then have "(unat b + 1) mod 256 = 0" by (simp add: unat_word_ariths)
  moreover have "unat b < 256" by (rule unat_byte_bound)
  ultimately show ?thesis by presburger
qed

lemma byte_succ_nonzero: "(b :: byte) + 1 \<noteq> 0 \<Longrightarrow> unat (b + 1) = unat b + 1"
proof -
  assume nz: "b + 1 \<noteq> 0"
  have lt: "unat b < 256" by (rule unat_byte_bound)
  have "unat b \<noteq> 255"
  proof
    assume "unat b = 255"
    then have "b = 255" by (rule byte_255)
    with nz show False by simp
  qed
  with lt have "unat b + 1 < 256" by simp
  then show ?thesis by (simp add: unat_word_ariths)
qed

lemma Increment64_loop_length: "length (snd (Increment64_loop base n c)) = length c"
  by (induction n arbitrary: c) (simp_all add: Let_def)

lemma Increment64_loop_outside:
  "k < base \<or> base + n \<le> k \<Longrightarrow> snd (Increment64_loop base n c) ! k = c ! k"
proof (induction n arbitrary: c)
  case 0
  then show ?case by simp
next
  case (Suc n)
  let ?c' = "c[base + n := c ! (base + n) + 1]"
  have k: "k \<noteq> base + n" "k < base \<or> base + n \<le> k" using Suc.prems by auto
  have "snd (Increment64_loop base n ?c') ! k = ?c' ! k" by (rule Suc.IH [OF k(2)])
  with k(1) show ?case by (simp add: Let_def)
qed

lemma take_Suc_drop:
  "base + n < length c \<Longrightarrow> take (Suc n) (drop base c) = take n (drop base c) @ [c ! (base + n)]"
  by (simp add: take_Suc_conv_app_nth)

lemma take_drop_update_beyond:
  "take n (drop base (c[base + n := x])) = take n (drop base c)"
  by (simp add: drop_update_swap)

lemma Increment64_loop_value:
  "base + n \<le> length c \<Longrightarrow>
   be_value (take n (drop base (snd (Increment64_loop base n c)))) =
     (be_value (take n (drop base c)) + 1) mod 256 ^ n \<and>
   fst (Increment64_loop base n c) = (be_value (take n (drop base c)) + 1 = 256 ^ n)"
proof (induction n arbitrary: c)
  case 0
  then show ?case by (simp add: be_value_def)
next
  case (Suc n)
  let ?b = "c ! (base + n)"
  let ?c' = "c[base + n := ?b + 1]"
  let ?v = "be_value (take n (drop base c))"
  define P where "P = (256::nat) ^ n"
  have in_range: "base + n < length c" using Suc.prems by simp
  have c'_at: "?c' ! (base + n) = ?b + 1" using in_range by simp
  have v_lt: "?v < P"
    using be_value_bound [of "take n (drop base c)"] in_range by (simp add: P_def)
  have pow: "(256::nat) ^ Suc n = 256 * P" by (simp add: P_def)
  have whole: "be_value (take (Suc n) (drop base c)) = ?v * 256 + unat ?b"
    using in_range by (simp add: take_Suc_drop be_value_snoc)
  have b_lt: "unat ?b < 256" by (rule unat_byte_bound)
  show ?case
  proof (cases "?b + 1 = 0")
    case False
    then have res: "Increment64_loop base (Suc n) c = (False, ?c')"
      using c'_at by (simp add: Let_def)
    have "be_value (take (Suc n) (drop base ?c')) = ?v * 256 + unat (?b + 1)"
      using in_range by (simp add: take_Suc_drop be_value_snoc take_drop_update_beyond)
    also have "\<dots> = ?v * 256 + unat ?b + 1"
      using False by (simp add: byte_succ_nonzero)
    finally have new: "be_value (take (Suc n) (drop base ?c')) = ?v * 256 + unat ?b + 1" .
    have "unat ?b \<noteq> 255"
    proof
      assume "unat ?b = 255"
      then have "?b = 255" by (rule byte_255)
      with False show False by simp
    qed
    with b_lt have "unat ?b + 1 < 256" by simp
    with v_lt have small: "?v * 256 + unat ?b + 1 < 256 * P" by simp
    show ?thesis
      unfolding res whole pow using new small by simp
  next
    case True
    then have b255: "unat ?b = 255" by (rule byte_succ_zero)
    let ?r = "Increment64_loop base n ?c'"
    have res: "Increment64_loop base (Suc n) c = ?r"
      using c'_at True by (simp add: Let_def)
    have len': "base + n \<le> length ?c'" using in_range by simp
    have IH: "be_value (take n (drop base (snd ?r))) = (?v + 1) mod P"
             "fst ?r = (?v + 1 = P)"
      using Suc.IH [OF len'] by (simp_all add: take_drop_update_beyond P_def)
    have last: "snd ?r ! (base + n) = 0"
      using Increment64_loop_outside [of "base + n" base n ?c'] c'_at True by simp
    have lenr: "base + n < length (snd ?r)"
      using in_range by (simp add: Increment64_loop_length)
    have new: "be_value (take (Suc n) (drop base (snd ?r))) = ((?v + 1) mod P) * 256"
      using lenr last IH(1) by (simp add: take_Suc_drop be_value_snoc)
    have "(?v * 256 + unat ?b + 1) mod (256 * P) = ((?v + 1) * 256) mod (P * 256)"
      using b255 by (simp add: algebra_simps)
    also have "\<dots> = ((?v + 1) mod P) * 256"
      by (rule mult_mod_left [symmetric])
    finally have modeq: "(?v * 256 + unat ?b + 1) mod (256 * P) = ((?v + 1) mod P) * 256" .
    have flag: "(?v + 1 = P) = (?v * 256 + unat ?b + 1 = 256 * P)"
      using b255 by auto
    show ?thesis
      unfolding res whole pow using new modeq IH(2) flag by simp
  qed
qed

lemma Increment64_loop_take: "take base (snd (Increment64_loop base n c)) = take base c"
  by (induction n arbitrary: c) (simp_all add: Let_def)

lemma AesCtr_crypt_byte_eq:
  "AesCtr_crypt_byte E plaintext i s =
     (ctr_advance (ctr_refill E (fst s)),
      (snd s)[i := plaintext ! i XOR
                encrypted_counter (ctr_refill E (fst s)) ! block_offset (ctr_refill E (fst s))])"
  by (simp add: AesCtr_crypt_byte_def ctr_refill_def ctr_advance_def Let_def)

lemma ctr_stream_length: "length (snd (ctr_stream E this ps)) = length ps"
  by (induction ps arbitrary: this) (simp_all add: Let_def)

declare AesCtr_crypt_loop.simps [simp del]

lemma AesCtr_crypt_loop_stream:
  "i \<le> length plaintext \<Longrightarrow> length plaintext \<le> length (snd s) \<Longrightarrow>
   AesCtr_crypt_loop E plaintext i s =
     (fst (ctr_stream E (fst s) (drop i plaintext)),
      take i (snd s) @ snd (ctr_stream E (fst s) (drop i plaintext)) @ drop (length plaintext) (snd s))"
proof (induction E plaintext i s rule: AesCtr_crypt_loop.induct)
  case (1 E plaintext i s)
  show ?case
  proof (cases "i < length plaintext")
    case False
    with "1.prems" have "i = length plaintext" by simp
    with False show ?thesis by (subst AesCtr_crypt_loop.simps) simp
  next
    case True
    let ?s' = "AesCtr_crypt_byte E plaintext i s"
    let ?this1 = "ctr_refill E (fst s)"
    let ?x = "plaintext ! i XOR encrypted_counter ?this1 ! block_offset ?this1"
    have fst': "fst ?s' = ctr_advance ?this1" and snd': "snd ?s' = (snd s)[i := ?x]"
      by (simp_all add: AesCtr_crypt_byte_eq)
    have len: "length plaintext \<le> length (snd ?s')" using "1.prems" by (simp add: snd')
    have IH: "AesCtr_crypt_loop E plaintext (i + 1) ?s' =
       (fst (ctr_stream E (fst ?s') (drop (i + 1) plaintext)),
        take (i + 1) (snd ?s') @ snd (ctr_stream E (fst ?s') (drop (i + 1) plaintext)) @
        drop (length plaintext) (snd ?s'))"
      using "1.IH" [OF True _ len] True by simp
    have dr: "drop i plaintext = plaintext ! i # drop (i + 1) plaintext"
      using True by (simp add: Cons_nth_drop_Suc)
    have i_lt: "i < length (snd s)" using True "1.prems" by simp
    have tk: "take (i + 1) (snd ?s') = take i (snd s) @ [?x]"
      using i_lt by (simp add: snd' take_Suc_conv_app_nth)
    have dp: "drop (length plaintext) (snd ?s') = drop (length plaintext) (snd s)"
      using True by (simp add: snd')
    have unfold: "AesCtr_crypt_loop E plaintext i s = AesCtr_crypt_loop E plaintext (i + 1) ?s'"
      using True by (simp add: AesCtr_crypt_loop.simps [of E plaintext i s])
    show ?thesis
      unfolding unfold IH tk dp dr fst' by (simp add: Let_def)
  qed
qed

lemma ctr_stream_append:
  "ctr_stream E this (ps @ qs) =
     (fst (ctr_stream E (fst (ctr_stream E this ps)) qs),
      snd (ctr_stream E this ps) @ snd (ctr_stream E (fst (ctr_stream E this ps)) qs))"
  by (induction ps arbitrary: this) (simp_all add: Let_def)

lemma AesCtr_CryptInternal_stream:
  "length plaintext \<le> length ciphertext \<Longrightarrow>
   AesCtr_CryptInternal E plaintext ciphertext this =
     \<lparr>returned = True, ciphertext_size = length plaintext,
      ciphertext_buffer = snd (ctr_stream E this plaintext) @ drop (length plaintext) ciphertext,
      this_after = fst (ctr_stream E this plaintext)\<rparr>"
  by (simp add: AesCtr_CryptInternal_def AesCtr_crypt_loop_stream Let_def)

lemma div16_one: "16 \<le> x \<Longrightarrow> x < 32 \<Longrightarrow> x div 16 = (1::nat)"
  by (rule div_nat_eqI) simp_all

lemma blocks_step_zero:
  "(1 + n + 15) div 16 - (1 + 15) div 16 + 1 = (0 + Suc n + 15) div 16 - (0 + 15) div (16::nat)"
  by simp

lemma blocks_step_pos:
  assumes "1 \<le> b" "b < 16"
  shows "((b + 1) mod 16 + n + 15) div 16 - ((b + 1) mod 16 + 15) div 16 =
         (b + Suc n + 15) div 16 - (b + 15) div (16::nat)"
proof (cases "b = 15")
  case True
  have "(n + 31) div 16 = Suc ((n + 15) div 16)"
    using div_add_self2 [of 16 "n + 15"] by (simp add: add.commute add.left_commute)
  with True show ?thesis by simp
next
  case False
  with assms have lt: "b < 15" by simp
  then have m: "(b + 1) mod 16 = b + 1" by simp
  have "(b + 1 + 15) div 16 = 1" using assms lt by (intro div16_one) simp_all
  moreover have "(b + 15) div 16 = 1" using assms lt by (intro div16_one) simp_all
  moreover have "b + 1 + n + 15 = b + Suc n + 15" by simp
  ultimately show ?thesis unfolding m by simp
qed

lemma Increment64_low_half:
  assumes "length c = 16"
  shows "length (snd (Increment64 8 c)) = 16"
    and "take 8 (snd (Increment64 8 c)) = take 8 c"
    and "be_value (drop 8 (snd (Increment64 8 c))) = (be_value (drop 8 c) + 1) mod 2 ^ 64"
    and "fst (Increment64 8 c) = (be_value (drop 8 c) + 1 = 2 ^ 64)"
proof -
  let ?r = "Increment64_loop 8 8 c"
  show len: "length (snd (Increment64 8 c)) = 16"
    using assms by (simp add: Increment64_def Increment64_loop_length)
  show "take 8 (snd (Increment64 8 c)) = take 8 c"
    by (simp add: Increment64_def Increment64_loop_take)
  have le: "8 + 8 \<le> length c" using assms by simp
  have full: "take 8 (drop 8 c) = drop 8 c" "take 8 (drop 8 (snd ?r)) = drop 8 (snd ?r)"
    using assms by (simp_all add: Increment64_loop_length)
  have pw: "(256::nat) ^ 8 = 2 ^ 64" by simp
  from Increment64_loop_value [OF le]
  show "be_value (drop 8 (snd (Increment64 8 c))) = (be_value (drop 8 c) + 1) mod 2 ^ 64"
    and "fst (Increment64 8 c) = (be_value (drop 8 c) + 1 = 2 ^ 64)"
    unfolding full pw Increment64_def by simp_all
qed

lemma ctr_refill_facts:
  assumes "length (counter this) = 16"
  shows "length (counter (ctr_refill E this)) = 16"
    and "take 8 (counter (ctr_refill E this)) = take 8 (counter this)"
    and "block_offset (ctr_refill E this) = block_offset this"
    and "be_value (drop 8 (counter (ctr_refill E this))) =
           (if block_offset this = 0 then (be_value (drop 8 (counter this)) + 1) mod 2 ^ 64
            else be_value (drop 8 (counter this)))"
  using Increment64_low_half [OF assms] assms by (simp_all add: ctr_refill_def)

lemma ctr_stream_counter:
  "length (counter this) = 16 \<Longrightarrow> block_offset this < 16 \<Longrightarrow>
   length (counter (fst (ctr_stream E this ps))) = 16 \<and>
   take 8 (counter (fst (ctr_stream E this ps))) = take 8 (counter this) \<and>
   block_offset (fst (ctr_stream E this ps)) = (block_offset this + length ps) mod 16 \<and>
   be_value (drop 8 (counter (fst (ctr_stream E this ps)))) =
     (be_value (drop 8 (counter this)) +
      ((block_offset this + length ps + 15) div 16 - (block_offset this + 15) div 16)) mod 2 ^ 64"
proof (induction ps arbitrary: this)
  case Nil
  have "be_value (drop 8 (counter this)) < 2 ^ 64"
    using be_value_bound [of "drop 8 (counter this)"] Nil by simp
  with Nil show ?case by simp
next
  case (Cons p ps)
  let ?b = "block_offset this"
  let ?v = "be_value (drop 8 (counter this))"
  let ?t1 = "ctr_refill E this"
  let ?t2 = "ctr_advance ?t1"
  let ?n = "length ps"
  note rf = ctr_refill_facts [OF Cons.prems(1), of E]
  have len2: "length (counter ?t2) = 16" using rf(1) by (simp add: ctr_advance_def)
  have b2: "block_offset ?t2 = (?b + 1) mod 16"
    using rf(3) by (simp add: ctr_advance_def AES_BLOCK_SIZE_def)
  have b2_lt: "block_offset ?t2 < 16" unfolding b2 by simp
  have tk2: "take 8 (counter ?t2) = take 8 (counter this)"
    using rf(2) by (simp add: ctr_advance_def)
  have v2: "be_value (drop 8 (counter ?t2)) = (if ?b = 0 then (?v + 1) mod 2 ^ 64 else ?v)"
    using rf(4) by (simp add: ctr_advance_def)
  have res: "fst (ctr_stream E this (p # ps)) = fst (ctr_stream E ?t2 ps)"
    by (simp add: Let_def)
  note IH = Cons.IH [OF len2 b2_lt]
  have off: "((?b + 1) mod 16 + ?n) mod 16 = (?b + length (p # ps)) mod 16"
    by (simp add: mod_add_left_eq)
  have val: "(be_value (drop 8 (counter ?t2)) +
              ((block_offset ?t2 + ?n + 15) div 16 - (block_offset ?t2 + 15) div 16)) mod 2 ^ 64 =
             (?v + ((?b + length (p # ps) + 15) div 16 - (?b + 15) div 16)) mod 2 ^ 64"
  proof (cases "?b = 0")
    case True
    have A: "block_offset ?t2 = 1" using True by (simp add: b2)
    have B: "be_value (drop 8 (counter ?t2)) = (?v + 1) mod 2 ^ 64" using True by (simp add: v2)
    have D: "length (p # ps) = Suc ?n" by simp
    have "((?v + 1) mod 2 ^ 64 + ((1 + ?n + 15) div 16 - (1 + 15) div 16)) mod 2 ^ 64 =
          (?v + 1 + ((1 + ?n + 15) div 16 - (1 + 15) div 16)) mod 2 ^ 64"
      by (rule mod_add_left_eq)
    also have "?v + 1 + ((1 + ?n + 15) div 16 - (1 + 15) div 16) =
               ?v + ((1 + ?n + 15) div 16 - (1 + 15) div 16 + 1)"
      by (simp only: add.assoc add.commute [of 1])
    also have "(1 + ?n + 15) div 16 - (1 + 15) div 16 + 1 =
               (0 + Suc ?n + 15) div 16 - (0 + 15) div 16"
      by (rule blocks_step_zero)
    finally show ?thesis unfolding A B D True .
  next
    case False
    with Cons.prems(2) have rng: "1 \<le> ?b" "?b < 16" by simp_all
    have D: "length (p # ps) = Suc ?n" by simp
    have B: "be_value (drop 8 (counter ?t2)) = ?v" using False by (simp add: v2)
    show ?thesis unfolding B b2 D by (simp only: blocks_step_pos [OF rng])
  qed
  let ?r = "fst (ctr_stream E ?t2 ps)"
  from IH have i1: "length (counter ?r) = 16"
    and i2: "take 8 (counter ?r) = take 8 (counter ?t2)"
    and i3: "block_offset ?r = (block_offset ?t2 + ?n) mod 16"
    and i4: "be_value (drop 8 (counter ?r)) =
       (be_value (drop 8 (counter ?t2)) +
        ((block_offset ?t2 + ?n + 15) div 16 - (block_offset ?t2 + 15) div 16)) mod 2 ^ 64"
    by blast+
  show ?case
    unfolding res
  proof (intro conjI)
    show "length (counter ?r) = 16" by (rule i1)
    show "take 8 (counter ?r) = take 8 (counter this)" using i2 tk2 by simp
    show "block_offset ?r = (?b + length (p # ps)) mod 16" using i3 off by (simp only: b2)
    show "be_value (drop 8 (counter ?r)) =
       (?v + ((?b + length (p # ps) + 15) div 16 - (?b + 15) div 16)) mod 2 ^ 64"
      using i4 val by (simp only:)
  qed
qed

subsection \<open>Cipher block chaining\<close>

lemma resize_length: "length (resize n v xs) = n"
  by (simp add: resize_def)

lemma AES_encrypt_length: "length (AES_encrypt E key inp) = 16"
  by (simp add: AES_encrypt_def resize_length)

lemma resize_short: "length xs \<le> n \<Longrightarrow> resize n v xs = xs @ replicate (n - length xs) v"
  by (simp add: resize_def)

lemma write_at_length: "off + length src \<le> length buf \<Longrightarrow> length (write_at off src buf) = length buf"
  by (simp add: write_at_def)

lemma take_write_at:
  "off \<le> length buf \<Longrightarrow> take (off + length src) (write_at off src buf) = take off buf @ src"
  by (simp add: write_at_def)

lemma AES_cbc_encrypt_Nil: "AES_cbc_encrypt E key [] ivec = ([], ivec)"
  by (simp add: AES_cbc_encrypt.simps)

lemma AES_cbc_encrypt_Cons:
  "inp \<noteq> [] \<Longrightarrow>
   AES_cbc_encrypt E key inp ivec =
     (AES_encrypt E key (xor_bytes (resize 16 0 (take 16 inp)) ivec) @
        fst (AES_cbc_encrypt E key (drop 16 inp)
               (AES_encrypt E key (xor_bytes (resize 16 0 (take 16 inp)) ivec))),
      snd (AES_cbc_encrypt E key (drop 16 inp)
             (AES_encrypt E key (xor_bytes (resize 16 0 (take 16 inp)) ivec))))"
  by (subst AES_cbc_encrypt.simps) (simp add: Let_def split_beta)

lemma AES_cbc_encrypt_block:
  "length x = 16 \<Longrightarrow>
   AES_cbc_encrypt E key x ivec =
     (AES_encrypt E key (xor_bytes x ivec), AES_encrypt E key (xor_bytes x ivec))"
  by (subst AES_cbc_encrypt.simps) (auto simp: AES_cbc_encrypt_Nil resize_def Let_def)

lemma multiple_of_16_ge:
  assumes "(n::nat) mod 16 = 0" "0 < n"
  shows "16 \<le> n"
proof (rule ccontr)
  assume "\<not> 16 \<le> n"
  then have "n mod 16 = n" by simp
  with assms show False by simp
qed

lemma AES_cbc_encrypt_length:
  "length inp mod 16 = 0 \<Longrightarrow> length (fst (AES_cbc_encrypt E key inp ivec)) = length inp"
proof (induction E key inp ivec rule: AES_cbc_encrypt.induct)
  case (1 E key inp ivec)
  show ?case
  proof (cases "inp = []")
    case True
    then show ?thesis by (simp add: AES_cbc_encrypt_Nil)
  next
    case False
    let ?block = "AES_encrypt E key (xor_bytes (resize 16 0 (take 16 inp)) ivec)"
    from False "1.prems" have ge: "16 \<le> length inp" by (intro multiple_of_16_ge) simp_all
    then have m: "length (drop 16 inp) mod 16 = 0" using "1.prems" by (simp add: le_mod_geq)
    have IH: "length (fst (AES_cbc_encrypt E key (drop 16 inp) ?block)) = length (drop 16 inp)"
      using "1.IH" [OF False refl m] by simp
    show ?thesis
      using False IH ge
      by (subst AES_cbc_encrypt.simps) (simp add: Let_def split_beta AES_encrypt_length)
  qed
qed

lemma AES_cbc_encrypt_append:
  "length a mod 16 = 0 \<Longrightarrow>
   AES_cbc_encrypt E key (a @ b) ivec =
     (fst (AES_cbc_encrypt E key a ivec) @ fst (AES_cbc_encrypt E key b (snd (AES_cbc_encrypt E key a ivec))),
      snd (AES_cbc_encrypt E key b (snd (AES_cbc_encrypt E key a ivec))))"
proof (induction E key a ivec rule: AES_cbc_encrypt.induct)
  case (1 E key a ivec)
  show ?case
  proof (cases "a = []")
    case True
    then show ?thesis by (simp add: AES_cbc_encrypt_Nil)
  next
    case False
    let ?block = "AES_encrypt E key (xor_bytes (resize 16 0 (take 16 a)) ivec)"
    from False "1.prems" have ge: "16 \<le> length a" by (intro multiple_of_16_ge) simp_all
    then have m: "length (drop 16 a) mod 16 = 0" using "1.prems" by (simp add: le_mod_geq)
    note IH = "1.IH" [OF False refl m]
    have ab: "a @ b \<noteq> []" "take 16 (a @ b) = take 16 a" "drop 16 (a @ b) = drop 16 a @ b"
      using False ge by simp_all
    have L: "AES_cbc_encrypt E key (a @ b) ivec =
             (?block @ fst (AES_cbc_encrypt E key (drop 16 a @ b) ?block),
              snd (AES_cbc_encrypt E key (drop 16 a @ b) ?block))"
      unfolding AES_cbc_encrypt_Cons [OF ab(1)] ab(2) ab(3) by (rule refl)
    have R: "AES_cbc_encrypt E key a ivec =
             (?block @ fst (AES_cbc_encrypt E key (drop 16 a) ?block),
              snd (AES_cbc_encrypt E key (drop 16 a) ?block))"
      by (rule AES_cbc_encrypt_Cons [OF False])
    show ?thesis unfolding L R using IH by simp
  qed
qed

lemma cbc_size_multiple: "(n - n mod 16) mod 16 = (0::nat)"
  by (simp add: minus_mod_eq_div_mult)

lemma resize_short_take:
  "length xs \<le> n \<Longrightarrow> take n (resize n v xs) = xs @ replicate (n - length xs) v"
  by (simp add: resize_def)

lemma AesCbc_pkcs5_result:
  assumes "padding_scheme this = kPkcs5Padding"
    and "length plaintext + (16 - length plaintext mod 16) \<le> length ciphertext"
  shows "AesCbc_CryptInternal E plaintext ciphertext this =
     (let r = length plaintext mod 16; m = length plaintext - r;
          head = AES_cbc_encrypt E (aes_key this) (take m plaintext) (internal_iv this);
          tail = AES_cbc_encrypt E (aes_key this)
                   (drop m plaintext @ replicate (16 - r) (of_nat (16 - r))) (snd head)
      in \<lparr>returned = True, ciphertext_size = length plaintext + (16 - r),
          ciphertext_buffer = write_at m (fst tail) (write_at 0 (fst head) ciphertext),
          this_after = this\<lparr>internal_iv := snd tail\<rparr>\<rparr>)"
proof -
  define r where "r = length plaintext mod 16"
  define m where "m = length plaintext - r"
  have cap: "\<not> length ciphertext < length plaintext + (16 - r)" using assms(2) by (simp add: r_def)
  have res_len: "length (drop m plaintext) \<le> 16" by (simp add: m_def r_def)
  have res_len2: "length plaintext - m = r" by (simp add: m_def r_def)
  have head0: "m = 0 \<Longrightarrow> AES_cbc_encrypt E (aes_key this) (take m plaintext) (internal_iv this) = ([], internal_iv this)"
    by (simp add: AES_cbc_encrypt_Nil)
  have ws: "write_at 0 [] ciphertext = ciphertext" by (simp add: write_at_def)
  have r_lt: "r < 16" by (simp add: r_def)
  show ?thesis
    unfolding AesCbc_CryptInternal_def NumPaddingBytes_def AES_BLOCK_SIZE_def Let_def
      r_def [symmetric]
    unfolding m_def [symmetric]
    using cap assms(1) res_len2 r_lt
    by (cases "m = 0") (simp_all add: split_beta resize_short_take AES_cbc_encrypt_Nil)
qed

lemma AesCbc_cts_result:
  assumes "padding_scheme this = kCtsPadding"
    and "length plaintext \<le> length ciphertext"
  shows "AesCbc_CryptInternal E plaintext ciphertext this =
     (let r = length plaintext mod 16; m = length plaintext - r;
          head = AES_cbc_encrypt E (aes_key this) (take m plaintext) (internal_iv this);
          buf1 = write_at 0 (fst head) ciphertext;
          tail = AES_cbc_encrypt E (aes_key this) (drop m plaintext @ replicate (16 - r) 0) (snd head)
      in if m = 0
         then \<lparr>returned = True, ciphertext_size = length plaintext,
               ciphertext_buffer = write_at 0 plaintext ciphertext, this_after = this\<rparr>
         else if r = 0
         then \<lparr>returned = True, ciphertext_size = length plaintext,
               ciphertext_buffer = buf1, this_after = this\<lparr>internal_iv := snd head\<rparr>\<rparr>
         else \<lparr>returned = True, ciphertext_size = length plaintext,
               ciphertext_buffer =
                 write_at (m - 16) (fst tail) (write_at m (take r (drop (m - 16) buf1)) buf1),
               this_after = this\<lparr>internal_iv := snd tail\<rparr>\<rparr>)"
proof -
  define r where "r = length plaintext mod 16"
  define m where "m = length plaintext - r"
  have cap: "\<not> length ciphertext < length plaintext" using assms(2) by simp
  have res_len2: "length plaintext - m = r" by (simp add: m_def r_def)
  have r_lt: "r < 16" by (simp add: r_def)
  have ws: "write_at 0 [] ciphertext = ciphertext" by (simp add: write_at_def)
  show ?thesis
    unfolding AesCbc_CryptInternal_def NumPaddingBytes_def AES_BLOCK_SIZE_def Let_def
      r_def [symmetric]
    unfolding m_def [symmetric]
    using cap assms(1) res_len2 r_lt
    by (cases "m = 0") (simp_all add: split_beta resize_short_take AES_cbc_encrypt_Nil ws)
qed

section \<open>The claims about the AES encryptors\<close>

text \<open>
  Claim C2. While \<^verbatim>\<open>AesCtrEncryptor::CryptInternal\<close> encrypts, bytes 8 to 15 of the counter
  block are a 64-bit big-endian unsigned integer that goes up by one for every 16-byte
  keystream block, modulo \<open>2 ^ 64\<close>, and bytes 0 to 7 stay as they are. For a call that
  starts at block offset \<open>b\<close> and produces \<open>n\<close> bytes the number of blocks begun is
  \<open>(b + n + 15) div 16 - (b + 15) div 16\<close>, which is \<open>n div 16\<close> whenever \<open>n\<close> is a multiple
  of 16. \<^verbatim>\<open>Increment64\<close> itself adds one modulo \<open>2 ^ 64\<close> to bytes 8 to 15 and leaves
  bytes 0 to 7 alone.
\<close>

theorem AesCtr_counter_increment:
  assumes "length (counter this) = 16"
    and "block_offset this < 16"
    and "length plaintext \<le> length ciphertext"
  shows "take 8 (counter (this_after (AesCtr_CryptInternal E plaintext ciphertext this))) =
           take 8 (counter this) \<and>
         be_value (drop 8 (counter (this_after (AesCtr_CryptInternal E plaintext ciphertext this)))) =
           (be_value (drop 8 (counter this)) +
            ((block_offset this + length plaintext + 15) div 16 - (block_offset this + 15) div 16))
           mod 2 ^ 64 \<and>
         (length plaintext mod 16 = 0 \<longrightarrow>
            be_value (drop 8 (counter (this_after (AesCtr_CryptInternal E plaintext ciphertext this)))) =
              (be_value (drop 8 (counter this)) + length plaintext div 16) mod 2 ^ 64) \<and>
         take 8 (snd (Increment64 8 (counter this))) = take 8 (counter this) \<and>
         be_value (drop 8 (snd (Increment64 8 (counter this)))) =
           (be_value (drop 8 (counter this)) + 1) mod 2 ^ 64"
proof -
  let ?b = "block_offset this"
  let ?n = "length plaintext"
  have after: "this_after (AesCtr_CryptInternal E plaintext ciphertext this) =
               fst (ctr_stream E this plaintext)"
    using assms(3) by (simp add: AesCtr_CryptInternal_stream)
  note cs = ctr_stream_counter [OF assms(1) assms(2), of E plaintext]
  have whole_blocks: "(?b + ?n + 15) div 16 - (?b + 15) div 16 = ?n div 16" if "?n mod 16 = 0"
  proof -
    from that have "16 dvd ?n" by (simp add: mod_eq_0_iff_dvd)
    then have "?n = 16 * (?n div 16)" by simp
    then have "?b + ?n + 15 = (?b + 15) + (?n div 16) * 16" by simp
    then have "(?b + ?n + 15) div 16 = (?b + 15) div 16 + ?n div 16"
      by (simp only: div_mult_self1 [of 16 "?b + 15" "?n div 16"] div_mult_self3)
    then show ?thesis by simp
  qed
  let ?after = "fst (ctr_stream E this plaintext)"
  from cs have prefix: "take 8 (counter ?after) = take 8 (counter this)"
    and val: "be_value (drop 8 (counter ?after)) =
      (be_value (drop 8 (counter this)) + ((?b + ?n + 15) div 16 - (?b + 15) div 16)) mod 2 ^ 64"
    by blast+
  have val16: "be_value (drop 8 (counter ?after)) =
      (be_value (drop 8 (counter this)) + ?n div 16) mod 2 ^ 64" if "?n mod 16 = 0"
    using val by (simp only: whole_blocks [OF that])
  show ?thesis
    unfolding after
    using prefix val val16 Increment64_low_half(2,3) [OF assms(1)] by blast
qed

theorem AesCtr_counter_increment_witness:
  "length (counter \<lparr>aes_key = [], iv = [], constant_iv_flag = kDontUseConstantIv, block_offset = 0,
             encrypted_counter = [],
             counter = [1, 2, 3, 4, 5, 6, 7, 8, 255, 255, 255, 255, 255, 255, 255, 255]\<rparr>) = 16 \<and>
   take 8 (counter (this_after (AesCtr_CryptInternal (\<lambda>key block. block)
              [0, 0, 0, 0, 0, 0, 0, 0, 0, 0, 0, 0, 0, 0, 0, 0, 0]
              [0, 0, 0, 0, 0, 0, 0, 0, 0, 0, 0, 0, 0, 0, 0, 0, 0]
              \<lparr>aes_key = [], iv = [], constant_iv_flag = kDontUseConstantIv, block_offset = 0,
               encrypted_counter = [],
               counter = [1, 2, 3, 4, 5, 6, 7, 8, 255, 255, 255, 255, 255, 255, 255, 255]\<rparr>))) =
     [1, 2, 3, 4, 5, 6, 7, 8] \<and>
   be_value (drop 8 (counter (this_after (AesCtr_CryptInternal (\<lambda>key block. block)
              [0, 0, 0, 0, 0, 0, 0, 0, 0, 0, 0, 0, 0, 0, 0, 0, 0]
              [0, 0, 0, 0, 0, 0, 0, 0, 0, 0, 0, 0, 0, 0, 0, 0, 0]
              \<lparr>aes_key = [], iv = [], constant_iv_flag = kDontUseConstantIv, block_offset = 0,
               encrypted_counter = [],
               counter = [1, 2, 3, 4, 5, 6, 7, 8, 255, 255, 255, 255, 255, 255, 255, 255]\<rparr>)))) = 1"
  using AesCtr_counter_increment [of
      "\<lparr>aes_key = [], iv = [], constant_iv_flag = kDontUseConstantIv, block_offset = 0,
        encrypted_counter = [],
        counter = [1, 2, 3, 4, 5, 6, 7, 8, 255, 255, 255, 255, 255, 255, 255, 255]\<rparr>"
      "[0, 0, 0, 0, 0, 0, 0, 0, 0, 0, 0, 0, 0, 0, 0, 0, 0]"
      "[0, 0, 0, 0, 0, 0, 0, 0, 0, 0, 0, 0, 0, 0, 0, 0, 0]"
      "\<lambda>key block. block"]
  by (simp add: be_value_def)

text \<open>
  Claim C3. A call of \<^verbatim>\<open>AesCtrEncryptor::CryptInternal\<close> whose output buffer holds at least
  as many bytes as the plaintext returns true and reports the plaintext size; and
  encrypting \<open>p1\<close> and then \<open>p2\<close> in two calls on the same object gives the same ciphertext
  bytes, and leaves the same object, as encrypting \<open>p1 @ p2\<close> in one call.
\<close>

theorem AesCtr_size_and_chunking:
  assumes "length p1 \<le> length c1"
    and "length p2 \<le> length c2"
    and "length (p1 @ p2) \<le> length c"
  shows "returned (AesCtr_CryptInternal E p1 c1 this) \<and>
         ciphertext_size (AesCtr_CryptInternal E p1 c1 this) = length p1 \<and>
         (let r1 = AesCtr_CryptInternal E p1 c1 this;
              r2 = AesCtr_CryptInternal E p2 c2 (this_after r1);
              r = AesCtr_CryptInternal E (p1 @ p2) c this
          in returned r2 \<and> returned r \<and>
             ciphertext_size r2 = length p2 \<and> ciphertext_size r = length p1 + length p2 \<and>
             take (ciphertext_size r) (ciphertext_buffer r) =
               take (ciphertext_size r1) (ciphertext_buffer r1) @
               take (ciphertext_size r2) (ciphertext_buffer r2) \<and>
             this_after r = this_after r2)"
  using assms
  by (simp add: AesCtr_CryptInternal_stream ctr_stream_append ctr_stream_length Let_def)

theorem AesCtr_size_and_chunking_witness:
  "length [1, 2, 3 :: byte] \<le> length [0, 0, 0 :: byte] \<and>
   length [4, 5 :: byte] \<le> length [0, 0 :: byte] \<and>
   length ([1, 2, 3] @ [4, 5 :: byte]) \<le> length [0, 0, 0, 0, 0 :: byte] \<and>
   returned (AesCtr_CryptInternal (\<lambda>key block. map (\<lambda>x. x + 1) block) [1, 2, 3] [0, 0, 0] (AesCtr_SetIvInternal AesCtrEncryptor_new)) \<and>
   ciphertext_size (AesCtr_CryptInternal (\<lambda>key block. map (\<lambda>x. x + 1) block) [1, 2, 3] [0, 0, 0] (AesCtr_SetIvInternal AesCtrEncryptor_new)) = length [1, 2, 3 :: byte] \<and>
   (let r1 = AesCtr_CryptInternal (\<lambda>key block. map (\<lambda>x. x + 1) block) [1, 2, 3] [0, 0, 0] (AesCtr_SetIvInternal AesCtrEncryptor_new);
        r2 = AesCtr_CryptInternal (\<lambda>key block. map (\<lambda>x. x + 1) block) [4, 5] [0, 0] (this_after r1);
        r = AesCtr_CryptInternal (\<lambda>key block. map (\<lambda>x. x + 1) block) ([1, 2, 3] @ [4, 5]) [0, 0, 0, 0, 0] (AesCtr_SetIvInternal AesCtrEncryptor_new)
    in returned r2 \<and> returned r \<and>
       ciphertext_size r2 = length [4, 5 :: byte] \<and>
       ciphertext_size r = length [1, 2, 3 :: byte] + length [4, 5 :: byte] \<and>
       take (ciphertext_size r) (ciphertext_buffer r) =
         take (ciphertext_size r1) (ciphertext_buffer r1) @
         take (ciphertext_size r2) (ciphertext_buffer r2) \<and>
       this_after r = this_after r2)"
proof -
  have h1: "length [1, 2, 3 :: byte] \<le> length [0, 0, 0 :: byte]" by simp
  have h2: "length [4, 5 :: byte] \<le> length [0, 0 :: byte]" by simp
  have h3: "length ([1, 2, 3] @ [4, 5 :: byte]) \<le> length [0, 0, 0, 0, 0 :: byte]" by simp
  show ?thesis
    by (rule conjI [OF h1 conjI [OF h2 conjI [OF h3
          AesCtr_size_and_chunking [OF h1 h2 h3, of "\<lambda>key block. map (\<lambda>x. x + 1) block" "AesCtr_SetIvInternal AesCtrEncryptor_new"]]]])
qed

text \<open>
  Claim C4. With PKCS#5 padding and room in the output buffer, a plaintext of length \<open>L\<close>
  gives the reported ciphertext length \<open>L + (16 - L mod 16)\<close>, and the ciphertext is the
  CBC encryption of the plaintext followed by \<open>16 - L mod 16\<close> bytes of that value. The
  empty plaintext gives one block: the CBC encryption of sixteen bytes 0x10.
\<close>

theorem AesCbc_pkcs5_ciphertext:
  assumes "padding_scheme this = kPkcs5Padding"
    and "length plaintext + (16 - length plaintext mod 16) \<le> length ciphertext"
  shows "returned (AesCbc_CryptInternal E plaintext ciphertext this) \<and>
         ciphertext_size (AesCbc_CryptInternal E plaintext ciphertext this) =
           length plaintext + (16 - length plaintext mod 16) \<and>
         take (ciphertext_size (AesCbc_CryptInternal E plaintext ciphertext this))
              (ciphertext_buffer (AesCbc_CryptInternal E plaintext ciphertext this)) =
           fst (AES_cbc_encrypt E (aes_key this)
                  (plaintext @ replicate (16 - length plaintext mod 16)
                                 (of_nat (16 - length plaintext mod 16)))
                  (internal_iv this)) \<and>
         (plaintext = [] \<longrightarrow>
            ciphertext_size (AesCbc_CryptInternal E plaintext ciphertext this) = 16 \<and>
            take 16 (ciphertext_buffer (AesCbc_CryptInternal E plaintext ciphertext this)) =
              fst (AES_cbc_encrypt E (aes_key this) (replicate 16 0x10) (internal_iv this)))"
proof -
  define r where "r = length plaintext mod 16"
  define m where "m = length plaintext - r"
  define head where "head = AES_cbc_encrypt E (aes_key this) (take m plaintext) (internal_iv this)"
  define pad :: bytes where "pad = replicate (16 - r) (of_nat (16 - r))"
  define tail where "tail = AES_cbc_encrypt E (aes_key this) (drop m plaintext @ pad) (snd head)"
  let ?res = "AesCbc_CryptInternal E plaintext ciphertext this"
  have res: "?res = \<lparr>returned = True, ciphertext_size = length plaintext + (16 - r),
          ciphertext_buffer = write_at m (fst tail) (write_at 0 (fst head) ciphertext),
          this_after = this\<lparr>internal_iv := snd tail\<rparr>\<rparr>"
    using AesCbc_pkcs5_result [OF assms, of E]
    by (simp add: Let_def r_def m_def head_def tail_def pad_def)
  have r_lt: "r < 16" by (simp add: r_def)
  have m_le: "m \<le> length plaintext" by (simp add: m_def)
  have mr: "m + r = length plaintext" by (simp add: m_def r_def)
  have m16: "length (take m plaintext) mod 16 = 0"
    using m_le by (simp add: m_def r_def cbc_size_multiple)
  have len_head: "length (fst head) = m"
    using AES_cbc_encrypt_length [OF m16, of E "aes_key this" "internal_iv this"] m_le
    by (simp add: head_def)
  have t16: "length (drop m plaintext @ pad) mod 16 = 0"
    using r_lt mr by (simp add: pad_def)
  have len_tail: "length (fst tail) = 16"
    using AES_cbc_encrypt_length [OF t16, of E "aes_key this" "snd head"] r_lt mr
    by (simp add: tail_def pad_def)
  have cap: "m + 16 \<le> length ciphertext" using assms(2) mr r_lt by (simp add: r_def)
  have size: "length plaintext + (16 - r) = m + 16" using mr r_lt by simp
  have "take (m + 16) (write_at m (fst tail) (write_at 0 (fst head) ciphertext)) = fst head @ fst tail"
    using len_head len_tail cap by (simp add: write_at_def)
  also have "\<dots> = fst (AES_cbc_encrypt E (aes_key this) (take m plaintext @ (drop m plaintext @ pad)) (internal_iv this))"
    by (simp add: AES_cbc_encrypt_append [OF m16] head_def tail_def)
  also have "take m plaintext @ (drop m plaintext @ pad) = plaintext @ pad" by simp
  finally have out: "take (m + 16) (write_at m (fst tail) (write_at 0 (fst head) ciphertext)) =
     fst (AES_cbc_encrypt E (aes_key this) (plaintext @ pad) (internal_iv this))" .
  have empty: "plaintext = [] \<Longrightarrow> m + 16 = 16 \<and> plaintext @ pad = replicate 16 0x10"
    by (simp add: m_def r_def pad_def)
  show ?thesis
    unfolding res using out size empty by (auto simp: r_def [symmetric] pad_def)
qed

theorem AesCbc_pkcs5_ciphertext_witness:
  "padding_scheme \<lparr>aes_key = [], iv = [], constant_iv_flag = kUseConstantIv,
                   padding_scheme = kPkcs5Padding, internal_iv = []\<rparr> = kPkcs5Padding \<and>
   length ([] :: bytes) + (16 - length ([] :: bytes) mod 16) \<le>
     length [0, 0, 0, 0, 0, 0, 0, 0, 0, 0, 0, 0, 0, 0, 0, 0 :: byte] \<and>
   ciphertext_size (AesCbc_CryptInternal (\<lambda>key block. block) []
       [0, 0, 0, 0, 0, 0, 0, 0, 0, 0, 0, 0, 0, 0, 0, 0]
       \<lparr>aes_key = [], iv = [], constant_iv_flag = kUseConstantIv,
        padding_scheme = kPkcs5Padding, internal_iv = []\<rparr>) = 16 \<and>
   take 16 (ciphertext_buffer (AesCbc_CryptInternal (\<lambda>key block. block) []
       [0, 0, 0, 0, 0, 0, 0, 0, 0, 0, 0, 0, 0, 0, 0, 0]
       \<lparr>aes_key = [], iv = [], constant_iv_flag = kUseConstantIv,
        padding_scheme = kPkcs5Padding, internal_iv = []\<rparr>)) =
     fst (AES_cbc_encrypt (\<lambda>key block. block) [] (replicate 16 0x10) [])"
  using AesCbc_pkcs5_ciphertext [of
      "\<lparr>aes_key = [], iv = [], constant_iv_flag = kUseConstantIv,
        padding_scheme = kPkcs5Padding, internal_iv = []\<rparr>"
      "[]" "[0, 0, 0, 0, 0, 0, 0, 0, 0, 0, 0, 0, 0, 0, 0, 0]" "\<lambda>key block. block"]
  by simp

text \<open>
  Claim C5. With ciphertext stealing and room in the output buffer the call returns true
  and reports the plaintext length. A plaintext shorter than 16 bytes is copied to the
  output as it is. A plaintext of whole blocks is CBC encrypted. Any other plaintext of
  at least 16 bytes is padded with zeros to whole blocks and CBC encrypted; the output is
  that ciphertext with its last two blocks swapped and cut to the plaintext length, so
  that the short tail is the head of the last but one ciphertext block.
\<close>

theorem AesCbc_cts_ciphertext:
  assumes "padding_scheme this = kCtsPadding"
    and "length plaintext \<le> length ciphertext"
  shows "returned (AesCbc_CryptInternal E plaintext ciphertext this) \<and>
         ciphertext_size (AesCbc_CryptInternal E plaintext ciphertext this) = length plaintext \<and>
         (length plaintext < 16 \<longrightarrow>
            take (length plaintext) (ciphertext_buffer (AesCbc_CryptInternal E plaintext ciphertext this))
              = plaintext) \<and>
         (16 \<le> length plaintext \<and> length plaintext mod 16 = 0 \<longrightarrow>
            take (length plaintext) (ciphertext_buffer (AesCbc_CryptInternal E plaintext ciphertext this))
              = fst (AES_cbc_encrypt E (aes_key this) plaintext (internal_iv this))) \<and>
         (16 \<le> length plaintext \<and> length plaintext mod 16 \<noteq> 0 \<longrightarrow>
            take (length plaintext) (ciphertext_buffer (AesCbc_CryptInternal E plaintext ciphertext this))
              = (let r = length plaintext mod 16;
                     m = length plaintext - r;
                     full = fst (AES_cbc_encrypt E (aes_key this)
                                   (plaintext @ replicate (16 - r) 0) (internal_iv this))
                 in take (m - 16) full @ drop m full @ take r (drop (m - 16) full)))"
proof -
  define r where "r = length plaintext mod 16"
  define m where "m = length plaintext - r"
  define head where "head = AES_cbc_encrypt E (aes_key this) (take m plaintext) (internal_iv this)"
  define buf1 where "buf1 = write_at 0 (fst head) ciphertext"
  define pad :: bytes where "pad = replicate (16 - r) 0"
  define tail where "tail = AES_cbc_encrypt E (aes_key this) (drop m plaintext @ pad) (snd head)"
  let ?res = "AesCbc_CryptInternal E plaintext ciphertext this"
  have res: "?res =
     (if m = 0
      then \<lparr>returned = True, ciphertext_size = length plaintext,
            ciphertext_buffer = write_at 0 plaintext ciphertext, this_after = this\<rparr>
      else if r = 0
      then \<lparr>returned = True, ciphertext_size = length plaintext,
            ciphertext_buffer = buf1, this_after = this\<lparr>internal_iv := snd head\<rparr>\<rparr>
      else \<lparr>returned = True, ciphertext_size = length plaintext,
            ciphertext_buffer =
              write_at (m - 16) (fst tail) (write_at m (take r (drop (m - 16) buf1)) buf1),
            this_after = this\<lparr>internal_iv := snd tail\<rparr>\<rparr>)"
    using AesCbc_cts_result [OF assms, of E]
    by (simp add: Let_def r_def m_def head_def tail_def pad_def buf1_def)
  have r_lt: "r < 16" by (simp add: r_def)
  have m_le: "m \<le> length plaintext" by (simp add: m_def)
  have mr: "m + r = length plaintext" by (simp add: m_def r_def)
  have m_mod: "m mod 16 = 0" by (simp add: m_def r_def cbc_size_multiple)
  have m16: "length (take m plaintext) mod 16 = 0" using m_le m_mod by simp
  have len_head: "length (fst head) = m"
    using AES_cbc_encrypt_length [OF m16, of E "aes_key this" "internal_iv this"] m_le
    by (simp add: head_def)
  have t16: "length (drop m plaintext @ pad) mod 16 = 0"
    using r_lt mr by (simp add: pad_def)
  have len_tail: "length (fst tail) = 16"
    using AES_cbc_encrypt_length [OF t16, of E "aes_key this" "snd head"] r_lt mr
    by (simp add: tail_def pad_def)
  have m_zero_iff: "m = 0 \<longleftrightarrow> length plaintext < 16"
  proof
    assume "m = 0"
    with mr r_lt show "length plaintext < 16" by simp
  next
    assume "length plaintext < 16"
    then show "m = 0" by (simp add: m_def r_def)
  qed
  have flag: "returned ?res" and size: "ciphertext_size ?res = length plaintext"
    unfolding res by simp_all
  have short: "take (length plaintext) (ciphertext_buffer ?res) = plaintext" if "length plaintext < 16"
  proof -
    from that have "m = 0" by (simp add: m_zero_iff)
    then show ?thesis unfolding res using assms(2) by (simp add: write_at_def)
  qed
  have whole: "take (length plaintext) (ciphertext_buffer ?res) =
                 fst (AES_cbc_encrypt E (aes_key this) plaintext (internal_iv this))"
    if "16 \<le> length plaintext" "length plaintext mod 16 = 0"
  proof -
    from that have m0: "m \<noteq> 0" and r0: "r = 0" by (simp_all add: m_zero_iff r_def)
    then have ml: "m = length plaintext" using mr by simp
    have "take (length plaintext) buf1 = fst head"
      using len_head ml assms(2) by (simp add: buf1_def write_at_def)
    also have "\<dots> = fst (AES_cbc_encrypt E (aes_key this) plaintext (internal_iv this))"
      using ml by (simp add: head_def)
    finally show ?thesis unfolding res using m0 r0 by simp
  qed
  have stolen: "take (length plaintext) (ciphertext_buffer ?res) =
      (let full = fst (AES_cbc_encrypt E (aes_key this) (plaintext @ pad) (internal_iv this))
       in take (m - 16) full @ drop m full @ take r (drop (m - 16) full))"
    if "16 \<le> length plaintext" "length plaintext mod 16 \<noteq> 0"
  proof -
    from that have m0: "m \<noteq> 0" and r0: "r \<noteq> 0" by (simp_all add: m_zero_iff r_def)
    have m_ge: "16 \<le> m" using m0 m_mod by (intro multiple_of_16_ge) simp_all
    have cap: "m + r \<le> length ciphertext" using assms(2) mr by simp
    have full: "fst (AES_cbc_encrypt E (aes_key this) (plaintext @ pad) (internal_iv this)) =
                fst head @ fst tail"
    proof -
      have "plaintext @ pad = take m plaintext @ (drop m plaintext @ pad)" by simp
      then show ?thesis
        by (simp only: AES_cbc_encrypt_append [OF m16] head_def tail_def fst_conv)
    qed
    have b1: "buf1 = fst head @ drop m ciphertext"
      using len_head by (simp add: buf1_def write_at_def)
    have last_blk: "length (drop (m - 16) (fst head)) = 16" using len_head m_ge by simp
    have steal: "take r (drop (m - 16) buf1) = take r (drop (m - 16) (fst head))"
      using len_head m_ge r_lt last_blk by (simp add: b1)
    have len_steal: "length (take r (drop (m - 16) (fst head))) = r"
      using last_blk r_lt by simp
    have b2: "write_at m (take r (drop (m - 16) buf1)) buf1 =
              fst head @ take r (drop (m - 16) (fst head)) @ drop (m + r) ciphertext"
      unfolding steal using len_head len_steal cap
      by (simp add: write_at_def b1 add.commute)
    have b3: "write_at (m - 16) (fst tail) (fst head @ take r (drop (m - 16) (fst head)) @ drop (m + r) ciphertext) =
              take (m - 16) (fst head) @ fst tail @ take r (drop (m - 16) (fst head)) @ drop (m + r) ciphertext"
      using len_head len_tail m_ge by (simp add: write_at_def)
    have "take (length plaintext) (ciphertext_buffer ?res) =
          take (length plaintext)
            (take (m - 16) (fst head) @ fst tail @ take r (drop (m - 16) (fst head)) @ drop (m + r) ciphertext)"
      unfolding res using m0 r0 by (simp add: b2 b3)
    also have "\<dots> = take (m - 16) (fst head) @ fst tail @ take r (drop (m - 16) (fst head))"
      using len_head len_tail len_steal m_ge mr [symmetric] by simp
    also have "\<dots> = (let full = fst head @ fst tail
                      in take (m - 16) full @ drop m full @ take r (drop (m - 16) full))"
      using len_head len_tail m_ge r_lt last_blk by (simp add: Let_def)
    finally show ?thesis unfolding full .
  qed
  show ?thesis
    unfolding Let_def r_def [symmetric]
    unfolding m_def [symmetric] pad_def [symmetric]
    using flag size short whole [folded r_def] stolen [unfolded Let_def, folded r_def]
    by blast
qed

theorem AesCbc_cts_ciphertext_witness:
  "padding_scheme \<lparr>aes_key = [], iv = [], constant_iv_flag = kUseConstantIv,
                   padding_scheme = kCtsPadding, internal_iv = []\<rparr> = kCtsPadding \<and>
   length [0x68, 0x69 :: byte] \<le> length [0, 0 :: byte] \<and>
   length [0x68, 0x69 :: byte] < 16 \<and>
   returned (AesCbc_CryptInternal (\<lambda>key block. block) [0x68, 0x69] [0, 0]
       \<lparr>aes_key = [], iv = [], constant_iv_flag = kUseConstantIv,
        padding_scheme = kCtsPadding, internal_iv = []\<rparr>) \<and>
   take (length [0x68, 0x69 :: byte])
     (ciphertext_buffer (AesCbc_CryptInternal (\<lambda>key block. block) [0x68, 0x69] [0, 0]
       \<lparr>aes_key = [], iv = [], constant_iv_flag = kUseConstantIv,
        padding_scheme = kCtsPadding, internal_iv = []\<rparr>)) = [0x68, 0x69]"
  using AesCbc_cts_ciphertext [of
      "\<lparr>aes_key = [], iv = [], constant_iv_flag = kUseConstantIv,
        padding_scheme = kCtsPadding, internal_iv = []\<rparr>"
      "[0x68, 0x69]" "[0, 0]" "\<lambda>key block. block"]
  by simp

text \<open>
  Claim C9. \<^verbatim>\<open>AesEncryptor::InitializeWithIv\<close> returns false, and leaves the object as it
  is, for a key whose size is none of 16, 24 and 32 bytes; for a key of one of these sizes
  it stores the key and returns what \<^verbatim>\<open>SetIv\<close> returns.
\<close>

theorem InitializeWithIv_key_size:
  "(length key \<noteq> 16 \<and> length key \<noteq> 24 \<and> length key \<noteq> 32 \<longrightarrow>
      InitializeWithIv SetIv key iv0 this = Returned (False, this)) \<and>
   (length key = 16 \<or> length key = 24 \<or> length key = 32 \<longrightarrow>
      InitializeWithIv SetIv key iv0 this = Returned (SetIv iv0 (this\<lparr>aes_key := key\<rparr>)))"
  by (auto simp: InitializeWithIv_def IsKeySizeValidForAes_def AES_set_encrypt_key_def)

theorem InitializeWithIv_key_size_witness:
  "length [1, 2, 3 :: byte] \<noteq> 16 \<and> length [1, 2, 3 :: byte] \<noteq> 24 \<and> length [1, 2, 3 :: byte] \<noteq> 32 \<and>
   InitializeWithIv (\<lambda>v t. (True, t\<lparr>iv := v\<rparr>)) [1, 2, 3] [9]
      \<lparr>aes_key = [], iv = [], constant_iv_flag = kUseConstantIv\<rparr> =
     Returned (False, \<lparr>aes_key = [], iv = [], constant_iv_flag = kUseConstantIv\<rparr>) \<and>
   length [0, 1, 2, 3, 4, 5, 6, 7, 8, 9, 10, 11, 12, 13, 14, 15 :: byte] = 16 \<and>
   InitializeWithIv (\<lambda>v t. (True, t\<lparr>iv := v\<rparr>))
      [0, 1, 2, 3, 4, 5, 6, 7, 8, 9, 10, 11, 12, 13, 14, 15] [9]
      \<lparr>aes_key = [], iv = [], constant_iv_flag = kUseConstantIv\<rparr> =
     Returned (True, \<lparr>aes_key = [0, 1, 2, 3, 4, 5, 6, 7, 8, 9, 10, 11, 12, 13, 14, 15],
                      iv = [9], constant_iv_flag = kUseConstantIv\<rparr>)"
  using InitializeWithIv_key_size [of "[1, 2, 3]" "\<lambda>v t. (True, t\<lparr>iv := v\<rparr>)" "[9]"
           "\<lparr>aes_key = [], iv = [], constant_iv_flag = kUseConstantIv\<rparr>"]
        InitializeWithIv_key_size [of "[0, 1, 2, 3, 4, 5, 6, 7, 8, 9, 10, 11, 12, 13, 14, 15]"
           "\<lambda>v t. (True, t\<lparr>iv := v\<rparr>)" "[9]"
           "\<lparr>aes_key = [], iv = [], constant_iv_flag = kUseConstantIv\<rparr>"]
  by simp

text \<open>
  Claim C10. The constructor of \<^verbatim>\<open>AesCbcEncryptor\<close> aborts exactly when the padding scheme
  is PKCS#5 or CTS and the flag is not \<^verbatim>\<open>kUseConstantIv\<close>; the one-argument constructor,
  which passes \<^verbatim>\<open>kDontUseConstantIv\<close>, aborts for every scheme but \<^verbatim>\<open>kNoPadding\<close>; so an
  encryptor that was constructed and chains its IV across calls has no padding.
\<close>

theorem AesCbcEncryptor_padding_requires_constant_iv:
  "(AesCbcEncryptor_new2 scheme flag = CheckFailed \<longleftrightarrow>
      (scheme = kPkcs5Padding \<or> scheme = kCtsPadding) \<and> flag \<noteq> kUseConstantIv) \<and>
   (AesCbcEncryptor_new1 scheme = CheckFailed \<longleftrightarrow> scheme \<noteq> kNoPadding) \<and>
   (\<forall>this. AesCbcEncryptor_new2 scheme flag = Returned this \<longrightarrow>
      padding_scheme this = scheme \<and> constant_iv_flag this = flag \<and>
      (constant_iv_flag this = kDontUseConstantIv \<longrightarrow> padding_scheme this = kNoPadding))"
  by (cases scheme; cases flag)
     (auto simp: AesCbcEncryptor_new2_def AesCbcEncryptor_new1_def)

theorem AesCbcEncryptor_padding_requires_constant_iv_witness:
  "AesCbcEncryptor_new2 kPkcs5Padding kDontUseConstantIv = CheckFailed \<and>
   AesCbcEncryptor_new1 kCtsPadding = CheckFailed \<and>
   (\<exists>this. AesCbcEncryptor_new2 kNoPadding kDontUseConstantIv = Returned this \<and>
           constant_iv_flag this = kDontUseConstantIv \<and> padding_scheme this = kNoPadding)"
  using AesCbcEncryptor_padding_requires_constant_iv [of kPkcs5Padding kDontUseConstantIv]
        AesCbcEncryptor_padding_requires_constant_iv [of kCtsPadding kDontUseConstantIv]
        AesCbcEncryptor_padding_requires_constant_iv [of kNoPadding kDontUseConstantIv]
  by (simp add: AesCbcEncryptor_new2_def)

section \<open>Properties of the segmenter\<close>

subsection \<open>WriteSegment\<close>

lemma unat_32_bound: "unat (x :: 32 word) < 2 ^ 32"
  using unsigned_less [of x] by simp

lemma unat_ucast_32_64: "unat (ucast (x :: 32 word) :: 64 word) = unat x"
proof -
  have "unat x < 2 ^ 32" by (rule unat_32_bound)
  also have "(2 ^ 32 :: nat) < 2 ^ 64" by simp
  finally have "take_bit 64 (unat x) = unat x" by (simp add: take_bit_nat_eq_self)
  then show ?thesis by (simp add: unsigned_ucast_eq)
qed

lemma sum_durations_bound:
  "sum_list (map (\<lambda>r. unat (subsegment_duration r)) refs) \<le> length refs * (2 ^ 32 - 1)"
proof (induction refs)
  case Nil
  then show ?case by simp
next
  case (Cons r refs)
  have "unat (subsegment_duration r) \<le> 2 ^ 32 - 1"
    using unat_32_bound [of "subsegment_duration r"] by simp
  with Cons show ?case by simp
qed

lemma foldl_durations:
  "unat acc + sum_list (map (\<lambda>r. unat (subsegment_duration r)) refs) < 2 ^ 64 \<Longrightarrow>
   unat (foldl (\<lambda>d r. d + ucast (subsegment_duration r)) (acc :: 64 word) refs) =
     unat acc + sum_list (map (\<lambda>r. unat (subsegment_duration r)) refs)"
proof (induction refs arbitrary: acc)
  case Nil
  then show ?case by simp
next
  case (Cons r refs)
  let ?x = "ucast (subsegment_duration r) :: 64 word"
  have x: "unat ?x = unat (subsegment_duration r)" by (rule unat_ucast_32_64)
  have small: "unat acc + unat ?x < 2 ^ 64" using Cons.prems by (simp add: x)
  then have step: "unat (acc + ?x) = unat acc + unat ?x"
    by (simp add: unat_word_ariths)
  have "unat (acc + ?x) + sum_list (map (\<lambda>r. unat (subsegment_duration r)) refs) < 2 ^ 64"
    using Cons.prems by (simp add: step x)
  from Cons.IH [OF this] show ?case by (simp add: step x)
qed

lemma sum_subsegment_durations_unat:
  assumes "length refs \<le> 2 ^ 32"
  shows "unat (sum_subsegment_durations refs) = sum_list (map (\<lambda>r. unat (subsegment_duration r)) refs)"
proof -
  have "length refs * (2 ^ 32 - 1) \<le> 2 ^ 32 * (2 ^ 32 - 1)" using assms by simp
  also have "\<dots> < (2 ^ 64 :: nat)" by simp
  finally have "sum_list (map (\<lambda>r. unat (subsegment_duration r)) refs) < 2 ^ 64"
    using sum_durations_bound [of refs] by simp
  then show ?thesis
    using foldl_durations [of 0 refs] by (simp add: sum_subsegment_durations_def)
qed


lemma WriteSegment_status:
  "fst (WriteSegment env this) =
     (if \<not> segment_file_opened env this
      then \<lparr>error_code = FILE_FAILURE,
            error_message =
              (if segment_template (options this) = []
               then ''Cannot open file for append '' @ output_file_name (options this)
               else ''Cannot open file for write '' @
                    GetSegmentName env (segment_template (options this))
                      (sidx_earliest_presentation_time (sidx this)) (num_segments this)
                      (bandwidth (options this)))\<rparr>
      else if \<not> ok (buffer_WriteToFile env) then buffer_WriteToFile env
      else if \<not> ok (fragment_buffer_WriteToFile env) then fragment_buffer_WriteToFile env
      else Status_OK)"
  by (simp add: WriteSegment_def segment_file_opened_def Let_def)

lemma WriteSegment_listener_events:
  assumes "e \<in> set (snd (snd (WriteSegment env this)))"
    and "(\<exists>d. e = OnSampleDurationReady d) \<or> (\<exists>n t d s. e = OnNewSegment n t d s)"
  shows "segment_file_opened env this \<and> ok (buffer_WriteToFile env) \<and>
         ok (fragment_buffer_WriteToFile env) \<and> muxer_listener this \<and>
         (\<forall>n t d s. e = OnNewSegment n t d s \<longrightarrow>
            d = sum_subsegment_durations (references (sidx this)))"
  using assms
  by (auto simp: WriteSegment_def segment_file_opened_def Let_def split: if_splits)

lemma WriteSegment_listener_called:
  assumes "segment_file_opened env this" "ok (buffer_WriteToFile env)"
    "ok (fragment_buffer_WriteToFile env)" "muxer_listener this"
  shows "OnSampleDurationReady (sample_duration this) \<in> set (snd (snd (WriteSegment env this))) \<and>
         (\<exists>n t s. OnNewSegment n t (sum_subsegment_durations (references (sidx this))) s
                    \<in> set (snd (snd (WriteSegment env this))))"
  using assms
  by (auto simp: WriteSegment_def segment_file_opened_def Let_def split: if_splits)

lemma WriteSegment_close_warning:
  assumes "segment_file_opened env this" "\<not> File_Close env"
  shows "\<exists>m. Log_warning m \<in> set (snd (snd (WriteSegment env this)))"
  using assms
  by (auto simp: WriteSegment_def segment_file_opened_def Let_def split: if_splits)

lemma segment_file_opened_close [simp]:
  "segment_file_opened (env\<lparr>File_Close := c\<rparr>) this = segment_file_opened env this"
  by (simp add: segment_file_opened_def)




lemma WriteSegment_references:
  "references (sidx (fst (snd (WriteSegment env this)))) = references (sidx this)"
  by (auto simp: WriteSegment_def Let_def split: if_splits)


subsection \<open>The coalescing loop\<close>

declare coalesce_loop.simps [simp del]

lemma accumulate_eq:
  assumes "s < length refs" "s \<noteq> i"
  shows "accumulate s i refs =
     refs[s := (refs ! s)\<lparr>referenced_size := referenced_size (refs ! s) + referenced_size (refs ! i),
         subsegment_duration := subsegment_duration (refs ! s) + subsegment_duration (refs ! i),
         earliest_presentation_time :=
           min (earliest_presentation_time (refs ! s)) (earliest_presentation_time (refs ! i))\<rparr>]"
  using assms by (simp add: accumulate_def Let_def)

lemma coalesce_loop_done:
  "\<not> i < n \<Longrightarrow> coalesce_loop n p i frag s t refs = refs"
  by (subst coalesce_loop.simps) simp

lemma coalesce_loop_step:
  assumes "s < i" "i < n" "n \<le> length refs"
  shows "coalesce_loop n p i frag s t refs =
     (if frag + 1 \<ge> p
      then (if i + 1 \<ge> n
            then refs[s := finish_ref (absorb_ref (refs ! s) (refs ! i)) (absorb_sap (refs ! s) t (refs ! i))]
            else coalesce_loop n p (i + 2) 1 (s + 1) (absolute_sap_time (refs ! (i + 1)))
                   (refs[s := finish_ref (absorb_ref (refs ! s) (refs ! i)) (absorb_sap (refs ! s) t (refs ! i)),
                         s + 1 := refs ! (i + 1)]))
      else coalesce_loop n p (i + 1) (frag + 1) s (absorb_sap (refs ! s) t (refs ! i))
             (refs[s := absorb_ref (refs ! s) (refs ! i)]))"
proof -
  have s_len: "s < length refs" and si: "s \<noteq> i" using assms by simp_all
  have acc: "accumulate s i refs =
     refs[s := (refs ! s)\<lparr>referenced_size := referenced_size (refs ! s) + referenced_size (refs ! i),
         subsegment_duration := subsegment_duration (refs ! s) + subsegment_duration (refs ! i),
         earliest_presentation_time :=
           min (earliest_presentation_time (refs ! s)) (earliest_presentation_time (refs ! i))\<rparr>]"
    by (rule accumulate_eq [OF s_len si])
  show ?thesis
    apply (subst coalesce_loop.simps)
    unfolding acc
    using assms
    apply (simp add: Let_def absorb_ref_def absorb_sap_def finish_ref_def)
    done
qed

lemma coalesce_from_length: "1 \<le> length (coalesce_from p frag acc t rs)"
  by (induction p frag acc t rs rule: coalesce_from.induct) (auto split: list.splits)

lemma coalesce_loop_refines:
  assumes "s < i" "i \<le> n" "n \<le> length refs"
  shows "coalesce_loop n p i frag s t refs =
     take s refs @ coalesce_from p frag (refs ! s) t (take (n - i) (drop i refs)) @
     drop (s + length (coalesce_from p frag (refs ! s) t (take (n - i) (drop i refs)))) refs"
  using assms
proof (induction "n - i" arbitrary: i frag s t refs rule: less_induct)
  case less
  have s_len: "s < length refs" using less.prems by simp
  show ?case
  proof (cases "i < n")
    case False
    with less.prems have "n - i = 0" by simp
    then have rest: "take (n - i) (drop i refs) = []" by simp
    have "take s refs @ [refs ! s] @ drop (s + 1) refs = refs"
      using s_len by (simp add: id_take_nth_drop [symmetric])
    then show ?thesis
      unfolding rest using False by (simp add: coalesce_loop_done)
  next
    case True
    let ?acc = "absorb_ref (refs ! s) (refs ! i)"
    let ?t' = "absorb_sap (refs ! s) t (refs ! i)"
    let ?fin = "finish_ref ?acc ?t'"
    let ?rest' = "take (n - (i + 1)) (drop (i + 1) refs)"
    have i_len: "i < length refs" using True less.prems by simp
    have rest: "take (n - i) (drop i refs) = refs ! i # ?rest'"
    proof -
      have "n - i = Suc (n - (i + 1))" using True by simp
      moreover have "drop i refs = refs ! i # drop (i + 1) refs"
        using i_len by (simp add: Cons_nth_drop_Suc)
      ultimately show ?thesis by simp
    qed
    note step = coalesce_loop_step [OF less.prems(1) True less.prems(3), of p frag t]
    show ?thesis
    proof (cases "frag + 1 \<ge> p")
      case notclosing: False
      let ?refs' = "refs[s := ?acc]"
      have m: "n - (i + 1) < n - i" using True by simp
      have p1: "s < i + 1" using less.prems(1) by simp
      have p2: "i + 1 \<le> n" using True by simp
      have p3: "n \<le> length ?refs'" using less.prems(3) by simp
      let ?G = "coalesce_from p (frag + 1) ?acc ?t' ?rest'"
      have IH: "coalesce_loop n p (i + 1) (frag + 1) s ?t' ?refs' =
                take s refs @ ?G @ drop (s + length ?G) refs"
      proof -
        have d: "drop (i + 1) ?refs' = drop (i + 1) refs" using p1 by simp
        have g1: "1 \<le> length ?G" by (rule coalesce_from_length)
        then have "s < s + length ?G" by linarith
        then have d2: "drop (s + length ?G) ?refs' = drop (s + length ?G) refs"
          by (rule drop_update_cancel)
        have at: "?refs' ! s = ?acc" using s_len by simp
        from less.hyps [OF m p1 p2 p3, of "frag + 1" ?t']
        show ?thesis unfolding d at d2 by simp
      qed
      have G: "coalesce_from p frag (refs ! s) t (refs ! i # ?rest') = ?G"
        using notclosing by simp
      show ?thesis
        unfolding rest G using step notclosing IH by simp
    next
      case closing: True
      show ?thesis
      proof (cases "i + 1 \<ge> n")
        case last: True
        then have e: "?rest' = []" by simp
        have G: "coalesce_from p frag (refs ! s) t (refs ! i # ?rest') = [?fin]"
          unfolding e using closing by simp
        have "refs[s := ?fin] = take s refs @ [?fin] @ drop (s + 1) refs"
          using s_len by (simp add: upd_conv_take_nth_drop)
        then show ?thesis
          unfolding rest G using step closing last by simp
      next
        case more: False
        let ?r' = "refs ! (i + 1)"
        let ?rest'' = "take (n - (i + 2)) (drop (i + 2) refs)"
        let ?refs4 = "refs[s := ?fin, s + 1 := ?r']"
        have i1_len: "i + 1 < length refs" using more less.prems by simp
        have s1_len: "s + 1 < length refs" using less.prems(1) i_len by simp
        have rest': "?rest' = ?r' # ?rest''"
        proof -
          have "n - (i + 1) = Suc (n - (i + 2))" using more by simp
          moreover have "drop (i + 1) refs = ?r' # drop (i + 2) refs"
            using i1_len Cons_nth_drop_Suc [of "i + 1" refs] by simp
          ultimately show ?thesis by simp
        qed
        let ?G' = "coalesce_from p 1 ?r' (absolute_sap_time ?r') ?rest''"
        have G: "coalesce_from p frag (refs ! s) t (refs ! i # ?rest') = ?fin # ?G'"
          unfolding rest' using closing by simp
        have m: "n - (i + 2) < n - i" using True by simp
        have p1: "s + 1 < i + 2" using less.prems(1) by simp
        have p2: "i + 2 \<le> n" using more by simp
        have p3: "n \<le> length ?refs4" using less.prems(3) by simp
        have IH: "coalesce_loop n p (i + 2) 1 (s + 1) (absolute_sap_time ?r') ?refs4 =
                  take s refs @ [?fin] @ ?G' @ drop (s + 1 + length ?G') refs"
        proof -
          have d: "drop (i + 2) ?refs4 = drop (i + 2) refs" using less.prems(1) by simp
          have g1: "1 \<le> length ?G'" by (rule coalesce_from_length)
          then have lt: "s < s + 1 + length ?G'" "s + 1 < s + 1 + length ?G'" by linarith+
          have d2: "drop (s + 1 + length ?G') ?refs4 = drop (s + 1 + length ?G') refs"
            by (simp only: drop_update_cancel [OF lt(2)] drop_update_cancel [OF lt(1)])
          have at: "?refs4 ! (s + 1) = ?r'" using s1_len by simp
          have tk: "take (s + 1) ?refs4 = take s refs @ [?fin]"
            using s_len by (simp add: take_Suc_conv_app_nth)
          from less.hyps [OF m p1 p2 p3, of 1 "absolute_sap_time ?r'"]
          show ?thesis unfolding d at d2 tk by simp
        qed
        show ?thesis
          unfolding rest G using step closing more IH by simp
      qed
    qed
  qed
qed

lemma coalesce_from_unfold:
  "frag < p \<Longrightarrow>
   coalesce_from p frag acc t rs =
     (if length rs < p - frag then [fst (absorb_all acc t rs)]
      else finish_ref (fst (absorb_all acc t (take (p - frag) rs)))
                      (snd (absorb_all acc t (take (p - frag) rs))) #
           (case drop (p - frag) rs of
              [] \<Rightarrow> []
            | r' # rs' \<Rightarrow> coalesce_from p 1 r' (absolute_sap_time r') rs'))"
proof (induction rs arbitrary: frag acc t)
  case Nil
  then show ?case by simp
next
  case (Cons r rs)
  show ?case
  proof (cases "frag + 1 \<ge> p")
    case True
    with Cons.prems have one: "p - frag = 1" by simp
    show ?thesis unfolding one using True by (simp split: list.splits)
  next
    case False
    then have lt: "frag + 1 < p" by simp
    have suc: "p - frag = Suc (p - (frag + 1))" using lt by simp
    show ?thesis
      unfolding suc using False Cons.IH [OF lt] by simp
  qed
qed

lemma coalesce_from_groups:
  assumes "1 < p" "k * p < length (r # rs)"
  shows "k < length (coalesce_from p 1 r (absolute_sap_time r) rs) \<and>
         coalesce_from p 1 r (absolute_sap_time r) rs ! k =
           merge_group p (take p (drop (k * p) (r # rs)))"
  using assms(2)
proof (induction k arbitrary: r rs)
  case 0
  have suc: "p = Suc (p - 1)" using assms(1) by simp
  have tk: "take p (r # rs) = r # take (p - 1) rs"
    by (subst suc) simp
  show ?case
  proof (cases "length rs < p - 1")
    case True
    then have "take (p - 1) rs = rs" by simp
    moreover have "\<not> p \<le> Suc (length rs)" using True by simp
    ultimately show ?thesis
      using True assms(1) by (simp add: coalesce_from_unfold tk merge_group_def Let_def)
  next
    case False
    then have "p \<le> Suc (min (length rs) (p - 1))" by simp
    then show ?thesis
      using False assms(1) by (simp add: coalesce_from_unfold tk merge_group_def Let_def)
  qed
next
  case (Suc k)
  have suc: "p = Suc (p - 1)" using assms(1) by simp
  have len: "p + k * p < Suc (length rs)" using Suc.prems by simp
  then have ge: "\<not> length rs < p - 1" by simp
  have dr: "drop (p - 1) rs = drop p (r # rs)" by (subst (2) suc) simp
  have "p < length (r # rs)" using len by simp
  then have ne: "drop p (r # rs) \<noteq> []" by simp
  then obtain r' rs' where cons: "drop p (r # rs) = r' # rs'" by (cases "drop p (r # rs)") auto
  have len': "k * p < length (r' # rs')"
  proof -
    have "length (r' # rs') = length (r # rs) - p" by (simp add: cons [symmetric])
    with len show ?thesis by simp
  qed
  note IH = Suc.IH [OF len']
  have unfold: "coalesce_from p 1 r (absolute_sap_time r) rs =
      finish_ref (fst (absorb_all r (absolute_sap_time r) (take (p - 1) rs)))
                 (snd (absorb_all r (absolute_sap_time r) (take (p - 1) rs))) #
      coalesce_from p 1 r' (absolute_sap_time r') rs'"
    using coalesce_from_unfold [OF assms(1), of r "absolute_sap_time r" rs, unfolded dr cons] ge
    by (simp only: if_False list.case)
  have shift: "drop (Suc k * p) (r # rs) = drop (k * p) (r' # rs')"
  proof -
    have "drop (Suc k * p) (r # rs) = drop (k * p) (drop p (r # rs))"
      by (simp add: add.commute)
    then show ?thesis by (simp only: cons)
  qed
  show ?case
    unfolding unfold shift using IH by simp
qed

lemma group_size: "group_start p (k + 1) - group_start p k = (if k = 0 then p + 1 else p)"
  by (simp add: group_start_def)

lemma coalesce_from_first_groups:
  assumes "1 < p" "group_start p k < length (r0 # rs)"
  shows "k < length (coalesce_from p 0 r0 (absolute_sap_time r0) rs) \<and>
         coalesce_from p 0 r0 (absolute_sap_time r0) rs ! k =
           merge_group (group_start p (k + 1) - group_start p k) (group_of p (r0 # rs) k)"
proof (cases k)
  case 0
  have p0: "0 < p" using assms(1) by simp
  have g: "group_of p (r0 # rs) 0 = r0 # take p rs"
    by (simp add: group_of_def group_start_def)
  show ?thesis
  proof (cases "length rs < p")
    case True
    then have "take p rs = rs" by simp
    then show ?thesis
      unfolding 0 g group_size using True p0
      by (simp add: coalesce_from_unfold merge_group_def Let_def)
  next
    case False
    then have "min (length rs) p = p" by simp
    then show ?thesis
      unfolding 0 g group_size using False p0
      by (simp add: coalesce_from_unfold merge_group_def Let_def)
  qed
next
  case (Suc j)
  have p0: "0 < p" using assms(1) by simp
  have start: "group_start p k = j * p + p + 1" by (simp add: Suc group_start_def)
  have len: "j * p + p + 1 < Suc (length rs)" using assms(2) by (simp add: start)
  then have ge: "\<not> length rs < p - 0" by simp
  have "p < length rs" using len by simp
  then have "drop p rs \<noteq> []" by simp
  then obtain r' rs' where cons: "drop p rs = r' # rs'" by (cases "drop p rs") auto
  have len': "j * p < length (r' # rs')"
  proof -
    have "length (r' # rs') = length rs - p" by (simp add: cons [symmetric])
    with len show ?thesis by simp
  qed
  note tail = coalesce_from_groups [OF assms(1) len']
  have unfold: "coalesce_from p 0 r0 (absolute_sap_time r0) rs =
      finish_ref (fst (absorb_all r0 (absolute_sap_time r0) (take (p - 0) rs)))
                 (snd (absorb_all r0 (absolute_sap_time r0) (take (p - 0) rs))) #
      coalesce_from p 1 r' (absolute_sap_time r') rs'"
    using coalesce_from_unfold [OF p0, of r0 "absolute_sap_time r0" rs] ge
    by (simp only: if_False list.case diff_zero cons)
  have grp: "group_of p (r0 # rs) k = take p (drop (j * p) (r' # rs'))"
  proof -
    have "drop (group_start p k) (r0 # rs) = drop (j * p + p) rs"
      by (simp add: start)
    also have "\<dots> = drop (j * p) (drop p rs)" by (simp add: add.commute)
    finally have "drop (group_start p k) (r0 # rs) = drop (j * p) (r' # rs')"
      by (simp only: cons)
    then show ?thesis
      unfolding group_of_def group_size by (simp add: Suc)
  qed
  have sz: "group_start p (k + 1) - group_start p k = p"
    unfolding group_size by (simp add: Suc)
  show ?thesis
    unfolding unfold grp sz using tail by (simp add: Suc)
qed

lemma absorb_ref_fields:
  "referenced_size (absorb_ref acc r) = referenced_size acc + referenced_size r"
  "subsegment_duration (absorb_ref acc r) = subsegment_duration acc + subsegment_duration r"
  "earliest_presentation_time (absorb_ref acc r) =
     min (earliest_presentation_time acc) (earliest_presentation_time r)"
  "sap_delta_time (absorb_ref acc r) = sap_delta_time acc"
  "sap_type (absorb_ref acc r) =
     (if sap_type acc = TypeUnknown then sap_type r else sap_type acc)"
  by (simp_all add: absorb_ref_def Let_def)

lemma absorb_all_sums:
  "referenced_size (fst (absorb_all acc t rs)) =
     referenced_size acc + sum_list (map referenced_size rs) \<and>
   subsegment_duration (fst (absorb_all acc t rs)) =
     subsegment_duration acc + sum_list (map subsegment_duration rs) \<and>
   sap_delta_time (fst (absorb_all acc t rs)) = sap_delta_time acc"
  by (induction rs arbitrary: acc t) (simp_all add: absorb_ref_fields add.assoc)

lemma absorb_all_ept:
  "earliest_presentation_time (fst (absorb_all acc t rs)) =
     Min (insert (earliest_presentation_time acc) (earliest_presentation_time ` set rs))"
proof (induction rs arbitrary: acc t)
  case Nil
  then show ?case by simp
next
  case (Cons r rs)
  let ?S = "earliest_presentation_time ` set rs"
  have "Min (insert (min (earliest_presentation_time acc) (earliest_presentation_time r)) ?S) =
        Min (insert (earliest_presentation_time acc) (insert (earliest_presentation_time r) ?S))"
  proof (cases "?S = {}")
    case True
    then show ?thesis by simp
  next
    case False
    then show ?thesis by (simp add: min.assoc)
  qed
  then show ?case by (simp add: Cons.IH absorb_ref_fields)
qed

lemma absorb_all_sap:
  "sap_type (fst (absorb_all acc t rs)) =
     (if sap_type acc \<noteq> TypeUnknown then sap_type acc
      else case find known_sap rs of None \<Rightarrow> TypeUnknown | Some r \<Rightarrow> sap_type r) \<and>
   snd (absorb_all acc t rs) =
     (if sap_type acc \<noteq> TypeUnknown then t
      else case find known_sap rs of None \<Rightarrow> t | Some r \<Rightarrow> absolute_sap_time r)"
proof (induction rs arbitrary: acc t)
  case Nil
  then show ?case by simp
next
  case (Cons r rs)
  show ?case
    by (cases "sap_type acc = TypeUnknown"; cases "sap_type r = TypeUnknown")
       (simp_all add: Cons.IH absorb_ref_fields absorb_sap_def known_sap_def)
qed

lemma finish_ref_fields:
  "referenced_size (finish_ref acc t) = referenced_size acc"
  "subsegment_duration (finish_ref acc t) = subsegment_duration acc"
  "earliest_presentation_time (finish_ref acc t) = earliest_presentation_time acc"
  "sap_type (finish_ref acc t) = sap_type acc"
  "sap_delta_time (finish_ref acc t) =
     (if sap_type acc \<noteq> TypeUnknown then ucast (t - earliest_presentation_time acc)
      else sap_delta_time acc)"
  by (simp_all add: finish_ref_def)

lemma find_known_sap: "find known_sap rs = Some a \<Longrightarrow> sap_type a \<noteq> TypeUnknown"
  by (auto simp: find_Some_iff known_sap_def)

lemma merge_group_fields:
  assumes "g \<noteq> []"
  shows "referenced_size (merge_group full g) = sum_list (map referenced_size g)"
    and "subsegment_duration (merge_group full g) = sum_list (map subsegment_duration g)"
    and "earliest_presentation_time (merge_group full g) = Min (earliest_presentation_time ` set g)"
    and "sap_type (merge_group full g) =
           (case find known_sap g of None \<Rightarrow> TypeUnknown | Some r \<Rightarrow> sap_type r)"
    and "sap_delta_time (merge_group full g) =
           (case find known_sap g of
              None \<Rightarrow> sap_delta_time (hd g)
            | Some r \<Rightarrow>
                if full \<le> length g
                then ucast (absolute_sap_time r - Min (earliest_presentation_time ` set g))
                else sap_delta_time (hd g))"
proof -
  from assms obtain r rs where g: "g = r # rs" by (cases g) auto
  let ?m = "absorb_all r (absolute_sap_time r) rs"
  note sums = absorb_all_sums [of r "absolute_sap_time r" rs]
  note ept = absorb_all_ept [of r "absolute_sap_time r" rs]
  note sap = absorb_all_sap [of r "absolute_sap_time r" rs]
  have set_g: "earliest_presentation_time ` set g =
               insert (earliest_presentation_time r) (earliest_presentation_time ` set rs)"
    by (simp add: g)
  show "referenced_size (merge_group full g) = sum_list (map referenced_size g)"
    using sums by (simp add: merge_group_def g Let_def finish_ref_fields)
  show "subsegment_duration (merge_group full g) = sum_list (map subsegment_duration g)"
    using sums by (simp add: merge_group_def g Let_def finish_ref_fields)
  show "earliest_presentation_time (merge_group full g) = Min (earliest_presentation_time ` set g)"
    unfolding set_g using ept by (simp add: merge_group_def g Let_def finish_ref_fields)
  show "sap_type (merge_group full g) =
           (case find known_sap g of None \<Rightarrow> TypeUnknown | Some r \<Rightarrow> sap_type r)"
    using sap by (simp add: merge_group_def g Let_def finish_ref_fields known_sap_def)
  show "sap_delta_time (merge_group full g) =
           (case find known_sap g of
              None \<Rightarrow> sap_delta_time (hd g)
            | Some r \<Rightarrow>
                if full \<le> length g
                then ucast (absolute_sap_time r - Min (earliest_presentation_time ` set g))
                else sap_delta_time (hd g))"
    unfolding set_g
    using sap sums ept
    by (cases "sap_type r = TypeUnknown"; cases "find known_sap rs")
       (auto simp: merge_group_def g Let_def finish_ref_fields known_sap_def
             dest: find_known_sap)
qed

lemma num_fragments_per_subsegment_eq:
  fixes F :: nat and N :: int
  assumes "0 < F" "F < 2 ^ 32" "0 < N" "N < 2 ^ 31"
  shows "F mod 2 ^ 32 = F"
    and "(((F + 2 ^ 32 - 1) mod 2 ^ 32) div (nat (N mod 2 ^ 32)) + 1) mod 2 ^ 32 =
         (F - 1) div nat N + 1"
proof -
  show F: "F mod 2 ^ 32 = F" using assms(2) by simp
  have "F + 2 ^ 32 - 1 = (F - 1) + 1 * 2 ^ 32" using assms(1) by simp
  then have "(F + 2 ^ 32 - 1) mod 2 ^ 32 = (F - 1) mod 2 ^ 32"
    by (simp only: mod_mult_self1)
  also have "\<dots> = F - 1" using assms(2) by simp
  finally have a: "(F + 2 ^ 32 - 1) mod 2 ^ 32 = F - 1" .
  have "N < 2 ^ 32" using assms(4) by simp
  then have b: "N mod 2 ^ 32 = N" using assms(3) by simp
  have "(F - 1) div nat N \<le> F - 1" by (rule div_le_dividend)
  moreover have pw: "(2::nat) ^ 32 = 4294967296" by simp
  ultimately have "(F - 1) div nat N + 1 < 2 ^ 32" using assms(1,2) by linarith
  then have c: "((F - 1) div nat N + 1) mod 2 ^ 32 = (F - 1) div nat N + 1" by simp
  show "(((F + 2 ^ 32 - 1) mod 2 ^ 32) div (nat (N mod 2 ^ 32)) + 1) mod 2 ^ 32 =
         (F - 1) div nat N + 1"
    by (simp only: a b c)
qed

lemma resize_nth: "k < n \<Longrightarrow> k < length xs \<Longrightarrow> resize n v xs ! k = xs ! k"
  by (simp add: resize_def nth_append)

lemma groups_fit:
  fixes F N p k :: nat
  assumes "0 < N" "p = (F - 1) div N + 1" "group_start p k < F"
  shows "k < N"
proof (cases "k = 0")
  case True
  with assms(1) show ?thesis by simp
next
  case False
  then have "k * p + 1 < F" using assms(3) by (simp add: group_start_def)
  then have kp: "k * p < F - 1" by simp
  have "F - 1 < N + (F - 1) div N * N" using assms(1) by (rule dividend_less_div_times)
  also have "\<dots> = N * p" by (simp add: assms(2))
  finally have "F - 1 < N * p" .
  with kp have "k * p < N * p" by linarith
  then have "0 < p \<and> k < N" by (simp only: mult_less_cancel2)
  then show ?thesis by (rule conjunct2)
qed

lemma DoFinalizeSegment_coalesced:
  assumes ne: "references (sidx this) \<noteq> []"
    and len: "length (references (sidx this)) < 2 ^ 32"
    and N: "0 < num_subsegments_per_sidx (options this)" "num_subsegments_per_sidx (options this) < 2 ^ 31"
    and p: "p = (length (references (sidx this)) - 1) div nat (num_subsegments_per_sidx (options this)) + 1"
    and p1: "1 < p"
  shows "\<exists>this3. DoFinalizeSegment env this = Some (WriteSegment env this3) \<and>
           references (sidx this3) =
             resize (nat (num_subsegments_per_sidx (options this))) SegmentReference_zero
               (coalesce_from p 0 (hd (references (sidx this)))
                  (absolute_sap_time (hd (references (sidx this)))) (tl (references (sidx this))) @
                drop (length (coalesce_from p 0 (hd (references (sidx this)))
                  (absolute_sap_time (hd (references (sidx this)))) (tl (references (sidx this)))))
                  (references (sidx this)))"
proof -
  let ?refs = "references (sidx this)"
  let ?N = "num_subsegments_per_sidx (options this)"
  let ?F = "length ?refs"
  from ne obtain r0 rs where refs: "?refs = r0 # rs" by (cases ?refs) auto
  have F0: "0 < ?F" using ne by simp
  note ar = num_fragments_per_subsegment_eq [OF F0 len N]
  have pn: "(((?F + 2 ^ 32 - 1) mod 2 ^ 32) div (nat (?N mod 2 ^ 32)) + 1) mod 2 ^ 32 = p"
    using ar(2) p by simp
  let ?G = "coalesce_from p 0 r0 (absolute_sap_time r0) rs"
  have loop: "coalesce_loop ?F p 1 0 0 (absolute_sap_time (?refs ! 0)) ?refs =
              ?G @ drop (length ?G) ?refs"
  proof -
    have "1 \<le> ?F" using F0 by linarith
    from coalesce_loop_refines [OF _ this, of 0 ?refs p 0 "absolute_sap_time (?refs ! 0)"]
    show ?thesis by (simp add: refs)
  qed
  have loop': "coalesce_loop ?F p 1 0 0 (absolute_sap_time (?refs ! 0)) ?refs =
               coalesce_from p 0 (hd ?refs) (absolute_sap_time (hd ?refs)) (tl ?refs) @
               drop (length (coalesce_from p 0 (hd ?refs) (absolute_sap_time (hd ?refs)) (tl ?refs))) ?refs"
    using loop by (simp add: refs)
  have not_le: "\<not> num_subsegments_per_sidx (options this) \<le> 0" "\<not> p \<le> 1"
    using N(1) p1 by simp_all
  show ?thesis
    unfolding DoFinalizeSegment_def Let_def
    apply (simp only: ar(1) pn loop' ne not_le if_False)
    apply (rule exI, rule conjI, rule refl)
    apply simp
    done
qed

lemma DoFinalizeSegment_not_None:
  "references (sidx this) \<noteq> [] \<Longrightarrow> DoFinalizeSegment env this \<noteq> None"
  by (simp add: DoFinalizeSegment_def Let_def del: not_None_eq)

lemma DoFinalizeSegment_Some:
  "references (sidx this) \<noteq> [] \<Longrightarrow>
   DoFinalizeSegment env this =
     Some (fst (the (DoFinalizeSegment env this)),
           fst (snd (the (DoFinalizeSegment env this))),
           snd (snd (the (DoFinalizeSegment env this))))"
  using DoFinalizeSegment_not_None [of this env] by auto

lemma coalesced_references:
  assumes ne: "references (sidx this) \<noteq> []"
    and len: "length (references (sidx this)) < 2 ^ 32"
    and N: "0 < num_subsegments_per_sidx (options this)" "num_subsegments_per_sidx (options this) < 2 ^ 31"
    and p: "p = (length (references (sidx this)) - 1) div nat (num_subsegments_per_sidx (options this)) + 1"
    and p1: "1 < p"
    and fin: "DoFinalizeSegment env this = Some (status, this', events)"
  shows "length (references (sidx this')) = nat (num_subsegments_per_sidx (options this))"
    and "group_start p k < length (references (sidx this)) \<Longrightarrow>
         k < nat (num_subsegments_per_sidx (options this)) \<and>
         references (sidx this') ! k =
           merge_group (group_start p (k + 1) - group_start p k)
             (group_of p (references (sidx this)) k)"
    and "references (sidx this') =
           resize (nat (num_subsegments_per_sidx (options this))) SegmentReference_zero
             (coalesce_from p 0 (hd (references (sidx this)))
                (absolute_sap_time (hd (references (sidx this)))) (tl (references (sidx this))) @
              drop (length (coalesce_from p 0 (hd (references (sidx this)))
                (absolute_sap_time (hd (references (sidx this)))) (tl (references (sidx this)))))
                (references (sidx this)))"
proof -
  let ?refs = "references (sidx this)"
  let ?n = "nat (num_subsegments_per_sidx (options this))"
  let ?G = "coalesce_from p 0 (hd ?refs) (absolute_sap_time (hd ?refs)) (tl ?refs)"
  from DoFinalizeSegment_coalesced [OF ne len N p p1, of env]
  obtain this3 where f3: "DoFinalizeSegment env this = Some (WriteSegment env this3)"
    and r3: "references (sidx this3) = resize ?n SegmentReference_zero (?G @ drop (length ?G) ?refs)"
    by blast
  from f3 fin have eq: "WriteSegment env this3 = (status, this', events)" by simp
  have "this' = fst (snd (WriteSegment env this3))" unfolding eq by simp
  then have same: "references (sidx this') = references (sidx this3)"
    by (simp add: WriteSegment_references)
  show whole: "references (sidx this') = resize ?n SegmentReference_zero (?G @ drop (length ?G) ?refs)"
    by (simp only: same r3)
  show "length (references (sidx this')) = ?n"
    by (simp only: whole resize_length)
  show "k < ?n \<and> references (sidx this') ! k =
           merge_group (group_start p (k + 1) - group_start p k) (group_of p ?refs k)"
    if k: "group_start p k < length ?refs"
  proof -
    from ne obtain r0 rs where refs: "?refs = r0 # rs" by (cases ?refs) auto
    have n0: "0 < ?n" using N(1) by simp
    have kn: "k < ?n" using groups_fit [OF n0 p k] .
    from coalesce_from_first_groups [OF p1, of k r0 rs] k
    have kG: "k < length ?G"
      and Gk: "?G ! k = merge_group (group_start p (k + 1) - group_start p k) (group_of p ?refs k)"
      by (simp_all add: refs)
    have "references (sidx this') ! k = (?G @ drop (length ?G) ?refs) ! k"
      unfolding whole using kn kG by (intro resize_nth) simp_all
    also have "\<dots> = ?G ! k" using kG by (simp add: nth_append)
    finally show ?thesis using kn Gk by simp
  qed
qed

section \<open>The claims about the segmenter\<close>

text \<open>
  Claim C1, as the code has it. For the ten fragments of the specification's scenario and
  \<^verbatim>\<open>num_subsegments_per_sidx = 3\<close>, \<^verbatim>\<open>DoFinalizeSegment\<close> leaves three references that
  cover 5, 4 and 1 fragments, not 4, 4 and 2: every fragment has duration 1 and fragment
  \<open>k\<close> has \<open>2 ^ k\<close> bytes, and the coalesced durations are 5, 4, 1 and the sizes 31, 480,
  512. The loop starts with \<^verbatim>\<open>frag_index = 0\<close> where it resets it to 1 for every later
  subsegment, so the first subsegment takes one fragment more than
  \<^verbatim>\<open>num_fragments_per_subsegment\<close>.
\<close>

theorem ten_fragments_three_subsegments:
  "\<exists>status this' events.
     DoFinalizeSegment (example_collaborators Status_OK True) (example_segmenter 3 ten_fragments) =
       Some (status, this', events) \<and>
     map subsegment_duration (references (sidx this')) = [5, 4, 1] \<and>
     map referenced_size (references (sidx this')) = [31, 480, 512]"
proof -
  let ?env = "example_collaborators Status_OK True"
  let ?seg = "example_segmenter 3 ten_fragments"
  have refs: "references (sidx ?seg) = ten_fragments" by (simp add: example_segmenter_def)
  have ne: "references (sidx ?seg) \<noteq> []" unfolding refs by (simp add: ten_fragments_def)
  have len: "length (references (sidx ?seg)) < 2 ^ 32" unfolding refs by (simp add: ten_fragments_def)
  have N: "0 < num_subsegments_per_sidx (options ?seg)"
    "num_subsegments_per_sidx (options ?seg) < 2 ^ 31"
    by (simp_all add: example_segmenter_def)
  have p: "4 = (length (references (sidx ?seg)) - 1) div
                 nat (num_subsegments_per_sidx (options ?seg)) + 1"
    by (simp add: example_segmenter_def ten_fragments_def)
  have p1: "(1::nat) < 4" by simp
  define r where "r = the (DoFinalizeSegment ?env ?seg)"
  note fin = DoFinalizeSegment_Some [OF ne, of ?env, folded r_def]
  note whole = coalesced_references(3) [OF ne len N p p1 fin]
  have "references (sidx (fst (snd r))) =
        [\<lparr>referenced_size = 31, subsegment_duration = 5, sap_type = Type1,
          sap_delta_time = 0, earliest_presentation_time = 0\<rparr>,
         \<lparr>referenced_size = 480, subsegment_duration = 4, sap_type = Type1,
          sap_delta_time = 0, earliest_presentation_time = 50\<rparr>,
         \<lparr>referenced_size = 512, subsegment_duration = 1, sap_type = Type1,
          sap_delta_time = 0, earliest_presentation_time = 90\<rparr>]"
    unfolding whole
    by (simp add: example_segmenter_def ten_fragments_def fragment_reference_def resize_def
          absorb_ref_def absorb_sap_def finish_ref_def absolute_sap_time_def Let_def)
  then have "map subsegment_duration (references (sidx (fst (snd r)))) = [5, 4, 1]"
    and "map referenced_size (references (sidx (fst (snd r)))) = [31, 480, 512]"
    by simp_all
  note vals = this
  show ?thesis
    by (intro exI conjI) (rule fin vals)+
qed

text \<open>
  A second input for claim C1: three fragments and \<^verbatim>\<open>num_subsegments_per_sidx = 2\<close>. The
  loop puts all three fragments into one subsegment, and \<^verbatim>\<open>resize(2)\<close> keeps, as second
  reference, what the vector held at index 1: the reference of fragment 1 alone, whose
  bytes the first reference counts already.
\<close>

lemma three_fragments_two_subsegments:
  "\<exists>status this' events.
     DoFinalizeSegment (example_collaborators Status_OK True)
       (example_segmenter 2
          [fragment_reference 0 Type1 0, fragment_reference 1 Type1 0,
           fragment_reference 2 Type1 0]) =
       Some (status, this', events) \<and>
     map referenced_size (references (sidx this')) = [7, 2] \<and>
     map subsegment_duration (references (sidx this')) = [3, 1]"
proof -
  let ?env = "example_collaborators Status_OK True"
  let ?refs = "[fragment_reference 0 Type1 0, fragment_reference 1 Type1 0,
                fragment_reference 2 Type1 0]"
  let ?seg = "example_segmenter 2 ?refs"
  have refs: "references (sidx ?seg) = ?refs" by (simp add: example_segmenter_def)
  have ne: "references (sidx ?seg) \<noteq> []" unfolding refs by simp
  have len: "length (references (sidx ?seg)) < 2 ^ 32" unfolding refs by simp
  have N: "0 < num_subsegments_per_sidx (options ?seg)"
    "num_subsegments_per_sidx (options ?seg) < 2 ^ 31"
    by (simp_all add: example_segmenter_def)
  have p: "2 = (length (references (sidx ?seg)) - 1) div
                 nat (num_subsegments_per_sidx (options ?seg)) + 1"
    by (simp add: example_segmenter_def)
  have p1: "(1::nat) < 2" by simp
  define r where "r = the (DoFinalizeSegment ?env ?seg)"
  note fin = DoFinalizeSegment_Some [OF ne, of ?env, folded r_def]
  note whole = coalesced_references(3) [OF ne len N p p1 fin]
  have "references (sidx (fst (snd r))) =
        [\<lparr>referenced_size = 7, subsegment_duration = 3, sap_type = Type1,
          sap_delta_time = 0, earliest_presentation_time = 0\<rparr>,
         \<lparr>referenced_size = 2, subsegment_duration = 1, sap_type = Type1,
          sap_delta_time = 0, earliest_presentation_time = 10\<rparr>]"
    unfolding whole
    by (simp add: example_segmenter_def fragment_reference_def resize_def
          absorb_ref_def absorb_sap_def finish_ref_def absolute_sap_time_def Let_def)
  then have "map referenced_size (references (sidx (fst (snd r)))) = [7, 2]"
    and "map subsegment_duration (references (sidx (fst (snd r)))) = [3, 1]"
    by simp_all
  note vals = this
  show ?thesis
    by (intro exI conjI) (rule fin vals)+
qed

text \<open>
  Claim C6, as the code has it. Three fragments and \<^verbatim>\<open>num_subsegments_per_sidx = 1\<close>:
  fragment 0 has no known SAP type and fragment 1 has \<^verbatim>\<open>Type1\<close> with
  \<^verbatim>\<open>sap_delta_time = 5\<close> at presentation time 10, so the first SAP of the one subsegment
  lies at 15, which is 15 after its earliest presentation time 0.
  \<^verbatim>\<open>num_fragments_per_subsegment\<close> is 3 and the loop body runs twice, so \<^verbatim>\<open>frag_index\<close>
  never reaches it and the recomputation of \<^verbatim>\<open>sap_delta_time\<close> is never run: the
  reference that is left takes \<^verbatim>\<open>Type1\<close> from fragment 1 and keeps the
  \<^verbatim>\<open>sap_delta_time = 0\<close> of fragment 0.
\<close>

theorem sole_subsegment_keeps_delta:
  "\<exists>status this' events.
     DoFinalizeSegment (example_collaborators Status_OK True)
       (example_segmenter 1
          [fragment_reference 0 TypeUnknown 0,
           fragment_reference 1 Type1 5,
           fragment_reference 2 Type1 0]) =
       Some (status, this', events) \<and>
     length (references (sidx this')) = 1 \<and>
     sap_type ((references (sidx this')) ! 0) = Type1 \<and>
     earliest_presentation_time ((references (sidx this')) ! 0) = 0 \<and>
     sap_delta_time ((references (sidx this')) ! 0) = 0 \<and>
     absolute_sap_time (fragment_reference 1 Type1 5) = 15"
proof -
  let ?env = "example_collaborators Status_OK True"
  let ?refs = "[fragment_reference 0 TypeUnknown 0,
           fragment_reference 1 Type1 5,
           fragment_reference 2 Type1 0]"
  let ?seg = "example_segmenter 1 ?refs"
  have refs: "references (sidx ?seg) = ?refs" by (simp add: example_segmenter_def)
  have ne: "references (sidx ?seg) \<noteq> []" unfolding refs by simp
  have len: "length (references (sidx ?seg)) < 2 ^ 32" unfolding refs by simp
  have N: "0 < num_subsegments_per_sidx (options ?seg)"
    "num_subsegments_per_sidx (options ?seg) < 2 ^ 31"
    by (simp_all add: example_segmenter_def)
  have p: "3 = (length (references (sidx ?seg)) - 1) div
                 nat (num_subsegments_per_sidx (options ?seg)) + 1"
    by (simp add: example_segmenter_def)
  have p1: "(1::nat) < 3" by simp
  define r where "r = the (DoFinalizeSegment ?env ?seg)"
  note fin = DoFinalizeSegment_Some [OF ne, of ?env, folded r_def]
  note whole = coalesced_references(3) [OF ne len N p p1 fin]
  have "references (sidx (fst (snd r))) =
        [\<lparr>referenced_size = 7, subsegment_duration = 3, sap_type = Type1,
          sap_delta_time = 0, earliest_presentation_time = 0\<rparr>]"
    unfolding whole
    by (simp add: example_segmenter_def fragment_reference_def resize_def
          absorb_ref_def absorb_sap_def finish_ref_def absolute_sap_time_def Let_def)
  then have "length (references (sidx (fst (snd r)))) = 1"
    and "sap_type ((references (sidx (fst (snd r)))) ! 0) = Type1"
    and "earliest_presentation_time ((references (sidx (fst (snd r)))) ! 0) = 0"
    and "sap_delta_time ((references (sidx (fst (snd r)))) ! 0) = 0"
    and "absolute_sap_time (fragment_reference 1 Type1 5) = 15"
    by (simp_all add: fragment_reference_def absolute_sap_time_def)
  note vals = this
  show ?thesis
    by (intro exI conjI) (rule fin vals)+
qed

text \<open>
  A second input for claim C6: the ten fragments with \<^verbatim>\<open>num_subsegments_per_sidx = 3\<close>,
  of which only fragment 4 has a known SAP type. In groups of four fragments the second
  reference would take \<^verbatim>\<open>Type1\<close> with \<^verbatim>\<open>sap_delta_time = 0\<close> and the first would have
  no known SAP type. The loop puts fragment 4 into the first subsegment: the first
  reference takes \<^verbatim>\<open>Type1\<close> with \<^verbatim>\<open>sap_delta_time = 40\<close>, the others have no known SAP
  type.
\<close>

lemma misgrouped_fragment_gives_sap:
  "\<exists>status this' events.
     DoFinalizeSegment (example_collaborators Status_OK True)
       (example_segmenter 3
          [fragment_reference 0 TypeUnknown 0,
           fragment_reference 1 TypeUnknown 0,
           fragment_reference 2 TypeUnknown 0,
           fragment_reference 3 TypeUnknown 0,
           fragment_reference 4 Type1 0,
           fragment_reference 5 TypeUnknown 0,
           fragment_reference 6 TypeUnknown 0,
           fragment_reference 7 TypeUnknown 0,
           fragment_reference 8 TypeUnknown 0,
           fragment_reference 9 TypeUnknown 0]) =
       Some (status, this', events) \<and>
     map sap_type (references (sidx this')) = [Type1, TypeUnknown, TypeUnknown] \<and>
     map sap_delta_time (references (sidx this')) = [40, 0, 0]"
proof -
  let ?env = "example_collaborators Status_OK True"
  let ?refs = "[fragment_reference 0 TypeUnknown 0,
           fragment_reference 1 TypeUnknown 0,
           fragment_reference 2 TypeUnknown 0,
           fragment_reference 3 TypeUnknown 0,
           fragment_reference 4 Type1 0,
           fragment_reference 5 TypeUnknown 0,
           fragment_reference 6 TypeUnknown 0,
           fragment_reference 7 TypeUnknown 0,
           fragment_reference 8 TypeUnknown 0,
           fragment_reference 9 TypeUnknown 0]"
  let ?seg = "example_segmenter 3 ?refs"
  have refs: "references (sidx ?seg) = ?refs" by (simp add: example_segmenter_def)
  have ne: "references (sidx ?seg) \<noteq> []" unfolding refs by simp
  have len: "length (references (sidx ?seg)) < 2 ^ 32" unfolding refs by simp
  have N: "0 < num_subsegments_per_sidx (options ?seg)"
    "num_subsegments_per_sidx (options ?seg) < 2 ^ 31"
    by (simp_all add: example_segmenter_def)
  have p: "4 = (length (references (sidx ?seg)) - 1) div
                 nat (num_subsegments_per_sidx (options ?seg)) + 1"
    by (simp add: example_segmenter_def)
  have p1: "(1::nat) < 4" by simp
  define r where "r = the (DoFinalizeSegment ?env ?seg)"
  note fin = DoFinalizeSegment_Some [OF ne, of ?env, folded r_def]
  note whole = coalesced_references(3) [OF ne len N p p1 fin]
  have "references (sidx (fst (snd r))) =
        [\<lparr>referenced_size = 31, subsegment_duration = 5, sap_type = Type1,
          sap_delta_time = 40, earliest_presentation_time = 0\<rparr>,
         \<lparr>referenced_size = 480, subsegment_duration = 4, sap_type = TypeUnknown,
          sap_delta_time = 0, earliest_presentation_time = 50\<rparr>,
         \<lparr>referenced_size = 512, subsegment_duration = 1, sap_type = TypeUnknown,
          sap_delta_time = 0, earliest_presentation_time = 90\<rparr>]"
    unfolding whole
    by (simp add: example_segmenter_def fragment_reference_def resize_def
          absorb_ref_def absorb_sap_def finish_ref_def absolute_sap_time_def Let_def)
  then have "map sap_type (references (sidx (fst (snd r)))) = [Type1, TypeUnknown, TypeUnknown]"
    and "map sap_delta_time (references (sidx (fst (snd r)))) = [40, 0, 0]"
    by (simp_all add: fragment_reference_def absolute_sap_time_def)
  note vals = this
  show ?thesis
    by (intro exI conjI) (rule fin vals)+
qed

text \<open>
  The SAP fields the loop leaves, in general. Let \<open>N = num_subsegments_per_sidx > 0\<close>,
  \<open>F\<close> the number of references and \<open>p = (F - 1) div N + 1 > 1\<close>. The \<open>k\<close>-th reference
  that \<^verbatim>\<open>DoFinalizeSegment\<close> leaves stands for the group \<open>group_of p refs k\<close> of the
  loop, which starts at \<open>group_start p k\<close>: the first group holds \<open>p + 1\<close> references, the
  later ones \<open>p\<close>, the last one what is left. Its \<^verbatim>\<open>earliest_presentation_time\<close> is the
  least of the group. If a reference of the group has a known SAP type, the coalesced
  reference takes the \<^verbatim>\<open>sap_type\<close> of the first such reference, and, when the group is
  complete (the next group's start is not beyond the vector), its \<^verbatim>\<open>sap_delta_time\<close> is
  that reference's absolute SAP time minus the group's earliest presentation time,
  computed in 64 bits and cut to 32. If no reference of the group has a known SAP type,
  \<^verbatim>\<open>sap_type\<close> is \<^verbatim>\<open>TypeUnknown\<close> and \<^verbatim>\<open>sap_delta_time\<close> is the one of the first reference
  of the group.
\<close>

lemma sap_of_coalesced_reference:
  assumes "references (sidx this) \<noteq> []"
    and "length (references (sidx this)) < 2 ^ 32"
    and "0 < num_subsegments_per_sidx (options this)"
    and "num_subsegments_per_sidx (options this) < 2 ^ 31"
    and "p = (length (references (sidx this)) - 1) div
               nat (num_subsegments_per_sidx (options this)) + 1"
    and "1 < p"
    and "DoFinalizeSegment env this = Some (status, this', events)"
    and "group_start p k < length (references (sidx this))"
  shows "let g = group_of p (references (sidx this)) k;
             r = references (sidx this') ! k
         in g \<noteq> [] \<and> k < length (references (sidx this')) \<and>
            earliest_presentation_time r = Min (earliest_presentation_time ` set g) \<and>
            (case find (\<lambda>x. sap_type x \<noteq> TypeUnknown) g of
               None \<Rightarrow> sap_type r = TypeUnknown \<and> sap_delta_time r = sap_delta_time (hd g)
             | Some x \<Rightarrow>
                 sap_type r = sap_type x \<and>
                 (group_start p (k + 1) \<le> length (references (sidx this)) \<longrightarrow>
                  sap_delta_time r =
                    ucast (absolute_sap_time x - Min (earliest_presentation_time ` set g))))"
proof -
  let ?refs = "references (sidx this)"
  let ?full = "group_start p (k + 1) - group_start p k"
  let ?g = "group_of p ?refs k"
  note c = coalesced_references [OF assms(1-7)]
  from c(2) [OF assms(8)] have kn: "k < nat (num_subsegments_per_sidx (options this))"
    and rk: "references (sidx this') ! k = merge_group ?full ?g"
    by simp_all
  have full_pos: "0 < ?full" using assms(6) by (simp only: group_size) simp
  have g_ne: "?g \<noteq> []"
    using assms(8) full_pos by (simp add: group_of_def)
  have k_len: "k < length (references (sidx this'))" using kn c(1) by simp
  have full_iff: "?full \<le> length ?g \<longleftrightarrow> group_start p (k + 1) \<le> length ?refs"
  proof -
    have mono: "group_start p k \<le> group_start p (k + 1)" by (simp add: group_start_def)
    have "length ?g = min (length ?refs - group_start p k) ?full"
      by (simp add: group_of_def min.commute)
    then show ?thesis using mono assms(8) by auto
  qed
  have kn_eq: "known_sap = (\<lambda>x. sap_type x \<noteq> TypeUnknown)"
    by (rule ext) (simp add: known_sap_def)
  note mf = merge_group_fields [OF g_ne, of ?full, unfolded kn_eq]
  show ?thesis
    unfolding Let_def rk
    using g_ne k_len mf(3) mf(4) mf(5) full_iff
    by (auto split: option.splits)
qed

lemma sap_of_coalesced_reference_example:
  "(\<exists>status this' events.
     DoFinalizeSegment (example_collaborators Status_OK True)
       (example_segmenter 2
          [fragment_reference 0 TypeUnknown 0, fragment_reference 1 Type1 5,
           fragment_reference 2 Type2 0, fragment_reference 3 TypeUnknown 0]) =
       Some (status, this', events) \<and>
     group_start 2 0 < length
       [fragment_reference 0 TypeUnknown 0, fragment_reference 1 Type1 5,
        fragment_reference 2 Type2 0, fragment_reference 3 TypeUnknown 0] \<and>
     group_start 2 (0 + 1) \<le> length
       [fragment_reference 0 TypeUnknown 0, fragment_reference 1 Type1 5,
        fragment_reference 2 Type2 0, fragment_reference 3 TypeUnknown 0] \<and>
     sap_type (references (sidx this') ! 0) = Type1 \<and>
     sap_delta_time (references (sidx this') ! 0) = 15 \<and>
     earliest_presentation_time (references (sidx this') ! 0) = 0)"
proof -
  let ?env = "example_collaborators Status_OK True"
  let ?refs = "[fragment_reference 0 TypeUnknown 0, fragment_reference 1 Type1 5,
                fragment_reference 2 Type2 0, fragment_reference 3 TypeUnknown 0]"
  let ?seg = "example_segmenter 2 ?refs"
  have refs: "references (sidx ?seg) = ?refs" by (simp add: example_segmenter_def)
  have ne: "references (sidx ?seg) \<noteq> []" unfolding refs by simp
  have len: "length (references (sidx ?seg)) < 2 ^ 32" unfolding refs by simp
  have N: "0 < num_subsegments_per_sidx (options ?seg)"
    "num_subsegments_per_sidx (options ?seg) < 2 ^ 31"
    by (simp_all add: example_segmenter_def)
  have p: "2 = (length (references (sidx ?seg)) - 1) div
                 nat (num_subsegments_per_sidx (options ?seg)) + 1"
    by (simp add: example_segmenter_def)
  have p1: "(1::nat) < 2" by simp
  have k: "group_start 2 0 < length (references (sidx ?seg))"
    unfolding refs by (simp add: group_start_def)
  define r where "r = the (DoFinalizeSegment ?env ?seg)"
  note fin = DoFinalizeSegment_Some [OF ne, of ?env, folded r_def]
  have g: "group_of 2 ?refs 0 =
           [fragment_reference 0 TypeUnknown 0, fragment_reference 1 Type1 5,
            fragment_reference 2 Type2 0]"
    by (simp add: group_of_def group_start_def)
  have m: "Min (earliest_presentation_time `
             set [fragment_reference 0 TypeUnknown 0, fragment_reference 1 Type1 5,
                  fragment_reference 2 Type2 0]) = 0"
    by (simp add: fragment_reference_def)
  from sap_of_coalesced_reference [OF ne len N p p1 fin k]
  have "sap_type (references (sidx (fst (snd r))) ! 0) = Type1 \<and>
        sap_delta_time (references (sidx (fst (snd r))) ! 0) = 15 \<and>
        earliest_presentation_time
          (references (sidx (fst (snd r))) ! 0) = 0"
    unfolding refs g m Let_def
    by (simp add: fragment_reference_def group_start_def absolute_sap_time_def)
  moreover have "group_start 2 0 < length ?refs" "group_start 2 (0 + 1) \<le> length ?refs"
    by (simp_all add: group_start_def)
  ultimately show ?thesis using fin by blast
qed

text \<open>
  A third input for claim C6, a last subsegment that is short: six fragments and
  \<^verbatim>\<open>num_subsegments_per_sidx = 2\<close> give \<open>p = 3\<close>, a first subsegment of fragments 0 to 3
  and a second one of fragments 4 and 5, which never reaches the count that triggers the
  recomputation. Fragment 4 has no known SAP type and fragment 5 has \<^verbatim>\<open>Type1\<close> with
  \<^verbatim>\<open>sap_delta_time = 3\<close>: the second reference takes \<^verbatim>\<open>Type1\<close> and keeps the
  \<^verbatim>\<open>sap_delta_time = 0\<close> of fragment 4, where the first SAP lies 13 after the earliest
  presentation time of the subsegment.
\<close>

lemma short_last_subsegment_keeps_delta:
  "\<exists>status this' events.
     DoFinalizeSegment (example_collaborators Status_OK True)
       (example_segmenter 2
          [fragment_reference 0 Type1 0, fragment_reference 1 Type1 0,
           fragment_reference 2 Type1 0, fragment_reference 3 Type1 0,
           fragment_reference 4 TypeUnknown 0, fragment_reference 5 Type1 3]) =
       Some (status, this', events) \<and>
     sap_type (references (sidx this') ! 1) = Type1 \<and>
     sap_delta_time (references (sidx this') ! 1) = 0 \<and>
     earliest_presentation_time (references (sidx this') ! 1) = 40"
proof -
  let ?env = "example_collaborators Status_OK True"
  let ?refs = "[fragment_reference 0 Type1 0, fragment_reference 1 Type1 0,
           fragment_reference 2 Type1 0, fragment_reference 3 Type1 0,
           fragment_reference 4 TypeUnknown 0, fragment_reference 5 Type1 3]"
  let ?seg = "example_segmenter 2 ?refs"
  have refs: "references (sidx ?seg) = ?refs" by (simp add: example_segmenter_def)
  have ne: "references (sidx ?seg) \<noteq> []" unfolding refs by simp
  have len: "length (references (sidx ?seg)) < 2 ^ 32" unfolding refs by simp
  have N: "0 < num_subsegments_per_sidx (options ?seg)"
    "num_subsegments_per_sidx (options ?seg) < 2 ^ 31"
    by (simp_all add: example_segmenter_def)
  have p: "3 = (length (references (sidx ?seg)) - 1) div
                 nat (num_subsegments_per_sidx (options ?seg)) + 1"
    by (simp add: example_segmenter_def)
  have p1: "(1::nat) < 3" by simp
  define r where "r = the (DoFinalizeSegment ?env ?seg)"
  note fin = DoFinalizeSegment_Some [OF ne, of ?env, folded r_def]
  note whole = coalesced_references(3) [OF ne len N p p1 fin]
  have "references (sidx (fst (snd r))) ! 1 =
        \<lparr>referenced_size = 48, subsegment_duration = 2, sap_type = Type1,
         sap_delta_time = 0, earliest_presentation_time = 40\<rparr>"
    unfolding whole
    by (simp add: example_segmenter_def fragment_reference_def resize_def
          absorb_ref_def absorb_sap_def finish_ref_def absolute_sap_time_def Let_def)
  then have "sap_type (references (sidx (fst (snd r))) ! 1) = Type1"
    and "sap_delta_time (references (sidx (fst (snd r))) ! 1) = 0"
    and "earliest_presentation_time (references (sidx (fst (snd r))) ! 1) = 40"
    by simp_all
  note vals = this
  show ?thesis
    by (intro exI conjI) (rule fin vals)+
qed

text \<open>
  Claim C7. In \<^verbatim>\<open>WriteSegment\<close> the result of \<^verbatim>\<open>Close\<close> never changes the returned
  status: a failed close only adds a warning to the log. Once the file is open, a failed
  write of the buffer is returned as it is, and so is a failed write of the fragment
  buffer after a good write of the buffer. \<^verbatim>\<open>OnSampleDurationReady\<close> and
  \<^verbatim>\<open>OnNewSegment\<close> are called only when the file was opened and both writes succeeded
  (and then they are called, when there is a listener), and the duration passed to
  \<^verbatim>\<open>OnNewSegment\<close> is the sum of the \<^verbatim>\<open>subsegment_duration\<close> fields of all references.
\<close>

theorem WriteSegment_status_and_listener:
  "fst (WriteSegment (env\<lparr>File_Close := c\<rparr>) this) = fst (WriteSegment env this) \<and>
   (segment_file_opened env this \<and> \<not> ok (buffer_WriteToFile env) \<longrightarrow>
      fst (WriteSegment env this) = buffer_WriteToFile env) \<and>
   (segment_file_opened env this \<and> ok (buffer_WriteToFile env) \<and>
    \<not> ok (fragment_buffer_WriteToFile env) \<longrightarrow>
      fst (WriteSegment env this) = fragment_buffer_WriteToFile env) \<and>
   (segment_file_opened env this \<and> \<not> File_Close env \<longrightarrow>
      (\<exists>m. Log_warning m \<in> set (snd (snd (WriteSegment env this))))) \<and>
   (\<forall>e \<in> set (snd (snd (WriteSegment env this))).
      (\<exists>d. e = OnSampleDurationReady d) \<or> (\<exists>n t d s. e = OnNewSegment n t d s) \<longrightarrow>
        segment_file_opened env this \<and> ok (buffer_WriteToFile env) \<and>
        ok (fragment_buffer_WriteToFile env) \<and> fst (WriteSegment env this) = Status_OK) \<and>
   (\<forall>n t d s. OnNewSegment n t d s \<in> set (snd (snd (WriteSegment env this))) \<longrightarrow>
      d = sum_subsegment_durations (references (sidx this)) \<and>
      (length (references (sidx this)) \<le> 2 ^ 32 \<longrightarrow>
         unat d = sum_list (map (\<lambda>r. unat (subsegment_duration r)) (references (sidx this))))) \<and>
   (segment_file_opened env this \<and> ok (buffer_WriteToFile env) \<and>
    ok (fragment_buffer_WriteToFile env) \<and> muxer_listener this \<longrightarrow>
      OnSampleDurationReady (sample_duration this) \<in> set (snd (snd (WriteSegment env this))) \<and>
      (\<exists>n t s. OnNewSegment n t (sum_subsegment_durations (references (sidx this))) s
                 \<in> set (snd (snd (WriteSegment env this)))))"
proof (intro conjI)
  show "fst (WriteSegment (env\<lparr>File_Close := c\<rparr>) this) = fst (WriteSegment env this)"
    by (simp add: WriteSegment_status)
  show "segment_file_opened env this \<and> \<not> ok (buffer_WriteToFile env) \<longrightarrow>
      fst (WriteSegment env this) = buffer_WriteToFile env"
    by (simp add: WriteSegment_status)
  show "segment_file_opened env this \<and> ok (buffer_WriteToFile env) \<and>
    \<not> ok (fragment_buffer_WriteToFile env) \<longrightarrow>
      fst (WriteSegment env this) = fragment_buffer_WriteToFile env"
    by (simp add: WriteSegment_status)
  show "segment_file_opened env this \<and> \<not> File_Close env \<longrightarrow>
      (\<exists>m. Log_warning m \<in> set (snd (snd (WriteSegment env this))))"
    using WriteSegment_close_warning by blast
  show "\<forall>e \<in> set (snd (snd (WriteSegment env this))).
      (\<exists>d. e = OnSampleDurationReady d) \<or> (\<exists>n t d s. e = OnNewSegment n t d s) \<longrightarrow>
        segment_file_opened env this \<and> ok (buffer_WriteToFile env) \<and>
        ok (fragment_buffer_WriteToFile env) \<and> fst (WriteSegment env this) = Status_OK"
  proof (intro ballI impI)
    fix e
    assume e: "e \<in> set (snd (snd (WriteSegment env this)))"
      and l: "(\<exists>d. e = OnSampleDurationReady d) \<or> (\<exists>n t d s. e = OnNewSegment n t d s)"
    from WriteSegment_listener_events [OF e l]
    show "segment_file_opened env this \<and> ok (buffer_WriteToFile env) \<and>
        ok (fragment_buffer_WriteToFile env) \<and> fst (WriteSegment env this) = Status_OK"
      by (simp add: WriteSegment_status)
  qed
  show "\<forall>n t d s. OnNewSegment n t d s \<in> set (snd (snd (WriteSegment env this))) \<longrightarrow>
      d = sum_subsegment_durations (references (sidx this)) \<and>
      (length (references (sidx this)) \<le> 2 ^ 32 \<longrightarrow>
         unat d = sum_list (map (\<lambda>r. unat (subsegment_duration r)) (references (sidx this))))"
  proof (intro allI impI)
    fix n t d s
    assume e: "OnNewSegment n t d s \<in> set (snd (snd (WriteSegment env this)))"
    have "d = sum_subsegment_durations (references (sidx this))"
      using WriteSegment_listener_events [OF e] by blast
    then show "d = sum_subsegment_durations (references (sidx this)) \<and>
      (length (references (sidx this)) \<le> 2 ^ 32 \<longrightarrow>
         unat d = sum_list (map (\<lambda>r. unat (subsegment_duration r)) (references (sidx this))))"
      by (simp add: sum_subsegment_durations_unat)
  qed
  show "segment_file_opened env this \<and> ok (buffer_WriteToFile env) \<and>
    ok (fragment_buffer_WriteToFile env) \<and> muxer_listener this \<longrightarrow>
      OnSampleDurationReady (sample_duration this) \<in> set (snd (snd (WriteSegment env this))) \<and>
      (\<exists>n t s. OnNewSegment n t (sum_subsegment_durations (references (sidx this))) s
                 \<in> set (snd (snd (WriteSegment env this))))"
    using WriteSegment_listener_called by blast
qed

theorem WriteSegment_status_and_listener_witness:
  "segment_file_opened
     (example_collaborators \<lparr>error_code = FILE_FAILURE, error_message = ''disk full''\<rparr> False)
     (example_segmenter 0 ten_fragments) \<and>
   \<not> ok (buffer_WriteToFile
     (example_collaborators \<lparr>error_code = FILE_FAILURE, error_message = ''disk full''\<rparr> False)) \<and>
   \<not> File_Close
     (example_collaborators \<lparr>error_code = FILE_FAILURE, error_message = ''disk full''\<rparr> False) \<and>
   fst (WriteSegment
     (example_collaborators \<lparr>error_code = FILE_FAILURE, error_message = ''disk full''\<rparr> False)
     (example_segmenter 0 ten_fragments)) =
     \<lparr>error_code = FILE_FAILURE, error_message = ''disk full''\<rparr> \<and>
   (\<exists>m. Log_warning m \<in> set (snd (snd (WriteSegment
     (example_collaborators \<lparr>error_code = FILE_FAILURE, error_message = ''disk full''\<rparr> False)
     (example_segmenter 0 ten_fragments))))) \<and>
   segment_file_opened (example_collaborators Status_OK True) (example_segmenter 0 ten_fragments) \<and>
   ok (buffer_WriteToFile (example_collaborators Status_OK True)) \<and>
   ok (fragment_buffer_WriteToFile (example_collaborators Status_OK True)) \<and>
   muxer_listener (example_segmenter 0 ten_fragments) \<and>
   length (references (sidx (example_segmenter 0 ten_fragments))) \<le> 2 ^ 32 \<and>
   OnSampleDurationReady 1 \<in> set (snd (snd (WriteSegment (example_collaborators Status_OK True)
     (example_segmenter 0 ten_fragments)))) \<and>
   (\<exists>n t s. OnNewSegment n t 10 s \<in> set (snd (snd (WriteSegment (example_collaborators Status_OK True)
     (example_segmenter 0 ten_fragments)))))"
proof -
  let ?bad = "example_collaborators \<lparr>error_code = FILE_FAILURE, error_message = ''disk full''\<rparr> False"
  let ?good = "example_collaborators Status_OK True"
  let ?seg = "example_segmenter 0 ten_fragments"
  have h1: "segment_file_opened ?bad ?seg" "segment_file_opened ?good ?seg"
    by (simp_all add: segment_file_opened_def example_collaborators_def example_segmenter_def)
  have h2: "\<not> ok (buffer_WriteToFile ?bad)" "\<not> File_Close ?bad"
    "buffer_WriteToFile ?bad = \<lparr>error_code = FILE_FAILURE, error_message = ''disk full''\<rparr>"
    by (simp_all add: example_collaborators_def ok_def)
  have h3: "ok (buffer_WriteToFile ?good)" "ok (fragment_buffer_WriteToFile ?good)"
    by (simp_all add: example_collaborators_def ok_def Status_OK_def)
  have h4: "muxer_listener ?seg" "sample_duration ?seg = 1"
    "length (references (sidx ?seg)) \<le> 2 ^ 32"
    by (simp_all add: example_segmenter_def ten_fragments_def)
  have h5: "sum_subsegment_durations (references (sidx ?seg)) = 10"
    by (simp add: example_segmenter_def ten_fragments_def fragment_reference_def
          sum_subsegment_durations_def)
  show ?thesis
    using WriteSegment_status_and_listener [where env = ?bad and c = False and this = ?seg]
      WriteSegment_status_and_listener [where env = ?good and c = True and this = ?seg]
      h1 h2 h3 h4 h5
    by simp
qed



end
